theory Spec2Isabelle
  imports Complex_Main "HOL-Library.Word"
begin

section \<open>The arithmetic of \<open>double\<close> and \<open>double complex\<close>\<close>

text \<open>
  The program computes with C's \<open>double\<close> and \<open>double complex\<close>. Their operations belong to
  the compiler and the machine, not to the repository, so the embedding takes them as a
  parameter: a record of the operations the source uses, over a type \<open>'d\<close> of doubles and
  a type \<open>'c\<close> of complex doubles. Every function below is the source function with its
  arithmetic looked up in that record. A theorem stated for an arbitrary record holds
  whatever the floating-point arithmetic does (rounding, infinities, NaN, signed zeros);
  a theorem stated for the record \<open>exact\<close> holds for arithmetic without rounding error
  and without overflow; a theorem stated for the record \<open>binary64\<close> holds for the
  doubles of IEEE 754.
\<close>

record ('d, 'c) arith =
  flit :: "rat \<Rightarrow> 'd"                \<comment> \<open>a decimal floating constant of the source (\<open>0.5\<close>, \<open>2.0\<close>, \<open>1.6\<close>)\<close>
  f_of_int :: "int \<Rightarrow> 'd"           \<comment> \<open>conversion of an integer: \<open>(double)x\<close>\<close>
  fadd :: "'d \<Rightarrow> 'd \<Rightarrow> 'd"
  fsub :: "'d \<Rightarrow> 'd \<Rightarrow> 'd"
  fmul :: "'d \<Rightarrow> 'd \<Rightarrow> 'd"
  fdiv :: "'d \<Rightarrow> 'd \<Rightarrow> 'd"
  fsqrt :: "'d \<Rightarrow> 'd"
  fgt :: "'d \<Rightarrow> 'd \<Rightarrow> bool"         \<comment> \<open>the comparison \<open>>\<close>\<close>
  f_to_uint8 :: "'d \<Rightarrow> 8 word option" \<comment> \<open>conversion to \<open>Uint8\<close>; \<open>None\<close> where C leaves it undefined\<close>
  cmplx :: "'d \<Rightarrow> 'd \<Rightarrow> 'c"          \<comment> \<open>\<open>x + y * I\<close>\<close>
  creal :: "'c \<Rightarrow> 'd"
  cimag :: "'c \<Rightarrow> 'd"
  cadd :: "'c \<Rightarrow> 'c \<Rightarrow> 'c"
  cmul :: "'c \<Rightarrow> 'c \<Rightarrow> 'c"
  ceq :: "'c \<Rightarrow> 'c \<Rightarrow> bool"          \<comment> \<open>the comparison \<open>==\<close> of two complex values\<close>

text \<open>
  Conversion of a real to \<open>Uint8\<close> discards the fractional part; C defines it only when the
  integral part fits the type, that is for values strictly between \<open>-1\<close> and \<open>256\<close>.
\<close>

definition truncate_toward_zero :: "real \<Rightarrow> int" where
  "truncate_toward_zero v = (if 0 \<le> v then \<lfloor>v\<rfloor> else \<lceil>v\<rceil>)"

definition real_to_uint8 :: "real \<Rightarrow> 8 word option" where
  "real_to_uint8 v = (if -1 < v \<and> v < 256 then Some (word_of_int (truncate_toward_zero v)) else None)"

definition exact :: "(real, complex) arith" where
  "exact = \<lparr> flit = of_rat, f_of_int = of_int,
             fadd = (+), fsub = (-), fmul = (*), fdiv = (/), fsqrt = sqrt,
             fgt = (\<lambda>u v. v < u), f_to_uint8 = real_to_uint8,
             cmplx = Complex, creal = Re, cimag = Im,
             cadd = (+), cmul = (*), ceq = (=) \<rparr>"

section \<open>IEEE 754 binary64: the arithmetic of \<open>double\<close> on the target\<close>

text \<open>
  The Makefile builds with \<^verbatim>\<open>gcc -Wall -std=c99 -O2\<close> for a desktop machine with SDL. There
  \<open>double\<close> is the binary64 format of IEEE 754, the operations round to nearest, ties to
  even, and in the ISO mode of the compiler every operation is rounded on its own (no
  fused multiply-add). This section is that arithmetic, written from the standard, so that
  the source functions can be run on the numbers the program computes with. A finite double is a sign, a
  significand and an exponent, and stands for the number \<open>m \<sqdot> 2\<^sup>e\<close> with that sign; the
  same number may be written with several pairs \<open>(m, e)\<close>, and the operations below
  depend on the number only.
\<close>

datatype double = Finite bool nat int | Infinity bool | NaN

text \<open>The real number a finite double stands for.\<close>

fun valof :: "double \<Rightarrow> real" where
  "valof (Finite s m e) =
     (if s then - 1 else 1) * (if 0 \<le> e then real m * 2 ^ nat e else real m / 2 ^ nat (- e))"
| "valof (Infinity s) = 0"
| "valof NaN = 0"

text \<open>The number of binary digits of a natural number.\<close>

fun bitlength :: "nat \<Rightarrow> nat" where
  "bitlength n = (if n = 0 then 0 else Suc (bitlength (n div 2)))"

text \<open>
  Rounding of \<open>m \<sqdot> 2\<^sup>e\<close>, with the sign \<open>s\<close>, to a double. The result has at most 53 significant bits and no
  exponent below \<open>-1074\<close> (the subnormal numbers); the bits that do not fit are rounded to
  nearest, a tie to the even significand; from \<open>2\<^sup>1\<^sup>0\<^sup>2\<^sup>4\<close> on the result is an infinity.
\<close>

definition result_exponent :: "nat \<Rightarrow> int \<Rightarrow> int" where
  "result_exponent m e = max (e + int (bitlength m) - 53) (- 1074)"

definition round_half_even :: "nat \<Rightarrow> nat \<Rightarrow> nat" where
  "round_half_even m d =
     (if 2 ^ (d - 1) < m mod 2 ^ d \<or> (m mod 2 ^ d = 2 ^ (d - 1) \<and> odd (m div 2 ^ d))
      then m div 2 ^ d + 1 else m div 2 ^ d)"

definition scale_significand :: "nat \<Rightarrow> int \<Rightarrow> int \<Rightarrow> nat" where
  "scale_significand m e e' =
     (if e' \<le> e then m * 2 ^ nat (e - e') else round_half_even m (nat (e' - e)))"

definition finite_or_infinity :: "bool \<Rightarrow> nat \<Rightarrow> int \<Rightarrow> double" where
  "finite_or_infinity s q e' =
     (if 971 < e' \<or> (e' = 971 \<and> q = 2 ^ 53) then Infinity s else Finite s q e')"

definition round_to_double :: "bool \<Rightarrow> nat \<Rightarrow> int \<Rightarrow> double" where
  "round_to_double s m e =
     (if m = 0 then Finite s 0 0
      else finite_or_infinity s (scale_significand m e (result_exponent m e)) (result_exponent m e))"

text \<open>
  Rounding of the quotient \<open>(n / d) \<sqdot> 2\<^sup>e\<close>: the quotient is computed to more than 55
  bits, and one further bit records whether the division left a remainder.
\<close>

definition quotient_with_sticky :: "nat \<Rightarrow> nat \<Rightarrow> nat" where
  "quotient_with_sticky n d = 2 * (n div d) + (if n mod d = 0 then 0 else 1)"

definition round_quotient :: "bool \<Rightarrow> nat \<Rightarrow> nat \<Rightarrow> int \<Rightarrow> double" where
  "round_quotient s n d e =
     (if n = 0 then Finite s 0 0
      else round_to_double s (quotient_with_sticky (n * 2 ^ (55 + bitlength d)) d)
             (e - int (55 + bitlength d) - 1))"

text \<open>The integer square root, rounded down, and the same with a bit for inexactness.\<close>

definition isqrt_step :: "nat \<Rightarrow> nat \<Rightarrow> nat" where
  "isqrt_step n k = (if (k + 1) * (k + 1) \<le> n then k + 1 else k)"

fun isqrt :: "nat \<Rightarrow> nat" where
  "isqrt n = (if n < 2 then n else isqrt_step n (2 * isqrt (n div 4)))"

definition root_with_sticky :: "nat \<Rightarrow> nat \<Rightarrow> nat" where
  "root_with_sticky n k = 2 * k + (if k * k = n then 0 else 1)"

text \<open>The number \<open>m \<sqdot> 2\<^sup>e\<close>, with its sign, as a multiple of \<open>2\<^sup>e\<^sup>0\<close>, for \<open>e0 \<le> e\<close>.\<close>

definition aligned :: "bool \<Rightarrow> nat \<Rightarrow> int \<Rightarrow> int \<Rightarrow> int" where
  "aligned s m e e0 = (if s then - 1 else 1) * int m * 2 ^ nat (e - e0)"

fun dneg :: "double \<Rightarrow> double" where
  "dneg (Finite s m e) = Finite (\<not> s) m e"
| "dneg (Infinity s) = Infinity (\<not> s)"
| "dneg NaN = NaN"

text \<open>
  Addition. An exact sum of zero is \<open>+0\<close>, except that \<open>-0 + -0\<close> is \<open>-0\<close>; infinities of
  opposite sign add to NaN.
\<close>

definition sum_to_double :: "bool \<Rightarrow> int \<Rightarrow> int \<Rightarrow> double" where
  "sum_to_double s v e0 = (if v = 0 then Finite s 0 0 else round_to_double (v < 0) (nat \<bar>v\<bar>) e0)"

fun dadd :: "double \<Rightarrow> double \<Rightarrow> double" where
  "dadd (Finite s1 m1 e1) (Finite s2 m2 e2) =
     sum_to_double (s1 \<and> s2) (aligned s1 m1 e1 (min e1 e2) + aligned s2 m2 e2 (min e1 e2)) (min e1 e2)"
| "dadd (Finite s1 m1 e1) (Infinity t) = Infinity t"
| "dadd (Finite s1 m1 e1) NaN = NaN"
| "dadd (Infinity s) (Finite s2 m2 e2) = Infinity s"
| "dadd (Infinity s) (Infinity t) = (if s = t then Infinity s else NaN)"
| "dadd (Infinity s) NaN = NaN"
| "dadd NaN y = NaN"

definition dsub :: "double \<Rightarrow> double \<Rightarrow> double" where
  "dsub x y = dadd x (dneg y)"

text \<open>Multiplication. Zero times infinity is NaN.\<close>

fun dmul :: "double \<Rightarrow> double \<Rightarrow> double" where
  "dmul (Finite s1 m1 e1) (Finite s2 m2 e2) = round_to_double (s1 \<noteq> s2) (m1 * m2) (e1 + e2)"
| "dmul (Finite s1 m1 e1) (Infinity t) = (if m1 = 0 then NaN else Infinity (s1 \<noteq> t))"
| "dmul (Finite s1 m1 e1) NaN = NaN"
| "dmul (Infinity s) (Finite s2 m2 e2) = (if m2 = 0 then NaN else Infinity (s \<noteq> s2))"
| "dmul (Infinity s) (Infinity t) = Infinity (s \<noteq> t)"
| "dmul (Infinity s) NaN = NaN"
| "dmul NaN y = NaN"

text \<open>Division. \<open>0 / 0\<close> and \<open>\<infinity> / \<infinity>\<close> are NaN, another division by zero is an infinity.\<close>

fun ddiv :: "double \<Rightarrow> double \<Rightarrow> double" where
  "ddiv (Finite s1 m1 e1) (Finite s2 m2 e2) =
     (if m2 = 0 then (if m1 = 0 then NaN else Infinity (s1 \<noteq> s2))
      else round_quotient (s1 \<noteq> s2) m1 m2 (e1 - e2))"
| "ddiv (Finite s1 m1 e1) (Infinity t) = Finite (s1 \<noteq> t) 0 0"
| "ddiv (Finite s1 m1 e1) NaN = NaN"
| "ddiv (Infinity s) (Finite s2 m2 e2) = Infinity (s \<noteq> s2)"
| "ddiv (Infinity s) (Infinity t) = NaN"
| "ddiv (Infinity s) NaN = NaN"
| "ddiv NaN y = NaN"

text \<open>
  The square root of \<open>m \<sqdot> 2\<^sup>e\<close>: the significand is made at least 110 bits longer, so
  that the exponent is even, and the integer square root is rounded.
\<close>

fun dsqrt :: "double \<Rightarrow> double" where
  "dsqrt (Finite s m e) =
     (if m = 0 then Finite s 0 0
      else if s then NaN
      else round_to_double False
             (root_with_sticky (m * 2 ^ (110 + nat (e mod 2))) (isqrt (m * 2 ^ (110 + nat (e mod 2)))))
             ((e - int (110 + nat (e mod 2))) div 2 - 1))"
| "dsqrt (Infinity s) = (if s then NaN else Infinity False)"
| "dsqrt NaN = NaN"

text \<open>The comparisons \<open><\<close> and \<open>==\<close>: false whenever an operand is NaN; \<open>+0\<close> equals \<open>-0\<close>.\<close>

fun dless :: "double \<Rightarrow> double \<Rightarrow> bool" where
  "dless (Finite s1 m1 e1) (Finite s2 m2 e2) =
     (aligned s1 m1 e1 (min e1 e2) < aligned s2 m2 e2 (min e1 e2))"
| "dless (Finite s1 m1 e1) (Infinity t) = (\<not> t)"
| "dless (Finite s1 m1 e1) NaN = False"
| "dless (Infinity s) (Finite s2 m2 e2) = s"
| "dless (Infinity s) (Infinity t) = (s \<and> \<not> t)"
| "dless (Infinity s) NaN = False"
| "dless NaN y = False"

fun deq :: "double \<Rightarrow> double \<Rightarrow> bool" where
  "deq (Finite s1 m1 e1) (Finite s2 m2 e2) =
     (aligned s1 m1 e1 (min e1 e2) = aligned s2 m2 e2 (min e1 e2))"
| "deq (Finite s1 m1 e1) (Infinity t) = False"
| "deq (Finite s1 m1 e1) NaN = False"
| "deq (Infinity s) (Finite s2 m2 e2) = False"
| "deq (Infinity s) (Infinity t) = (s = t)"
| "deq (Infinity s) NaN = False"
| "deq NaN y = False"

text \<open>Conversion of an integer, the value of a decimal constant, and conversion to \<open>Uint8\<close>.\<close>

definition d_of_int :: "int \<Rightarrow> double" where
  "d_of_int i = round_to_double (i < 0) (nat \<bar>i\<bar>) 0"

definition d_lit :: "rat \<Rightarrow> double" where
  "d_lit q = round_quotient (fst (quotient_of q) < 0) (nat \<bar>fst (quotient_of q)\<bar>)
               (nat (snd (quotient_of q))) 0"

definition integral_part :: "nat \<Rightarrow> int \<Rightarrow> nat" where
  "integral_part m e = (if 0 \<le> e then m * 2 ^ nat e else m div 2 ^ nat (- e))"

fun d_to_uint8 :: "double \<Rightarrow> 8 word option" where
  "d_to_uint8 (Finite s m e) =
     (if integral_part m e = 0 then Some 0
      else if s \<or> 255 < integral_part m e then None
      else Some (of_nat (integral_part m e)))"
| "d_to_uint8 (Infinity s) = None"
| "d_to_uint8 NaN = None"

text \<open>
  A \<open>double complex\<close> is a pair of doubles. gcc multiplies two complex values by the
  textbook formula and, only when both parts of the product come out NaN, goes on to
  recover infinities (Annex G of the C standard). That recovery is a parameter
  \<open>recover\<close> here. \<open>x + y * I\<close> multiplies \<open>y\<close> by the imaginary unit \<open>0 + 1 i\<close> and adds,
  part by part.
\<close>

type_synonym double_complex = "double \<times> double"

definition product_re :: "double_complex \<Rightarrow> double_complex \<Rightarrow> double" where
  "product_re u v = dsub (dmul (fst u) (fst v)) (dmul (snd u) (snd v))"

definition product_im :: "double_complex \<Rightarrow> double_complex \<Rightarrow> double" where
  "product_im u v = dadd (dmul (fst u) (snd v)) (dmul (snd u) (fst v))"

definition dc_mul ::
  "(double_complex \<Rightarrow> double_complex \<Rightarrow> double_complex)
   \<Rightarrow> double_complex \<Rightarrow> double_complex \<Rightarrow> double_complex" where
  "dc_mul recover u v =
     (if product_re u v = NaN \<and> product_im u v = NaN then recover u v
      else (product_re u v, product_im u v))"

definition binary64 ::
  "(double_complex \<Rightarrow> double_complex \<Rightarrow> double_complex) \<Rightarrow> (double, double_complex) arith" where
  "binary64 recover =
     \<lparr> flit = d_lit, f_of_int = d_of_int,
       fadd = dadd, fsub = dsub, fmul = dmul, fdiv = ddiv, fsqrt = dsqrt,
       fgt = (\<lambda>u v. dless v u), f_to_uint8 = d_to_uint8,
       cmplx = (\<lambda>x y. (dadd x (dmul y (d_of_int 0)), dmul y (d_of_int 1))),
       creal = fst, cimag = snd,
       cadd = (\<lambda>u v. (dadd (fst u) (fst v), dadd (snd u) (snd v))),
       cmul = dc_mul recover,
       ceq = (\<lambda>u v. deq (fst u) (fst v) \<and> deq (snd u) (snd v)) \<rparr>"

text \<open>
  Two notions for the comparison \<open>==\<close>. A double is finite when it is neither an infinity
  nor NaN; two doubles are alike when they are the same double or are both an exact zero,
  \<open>+0\<close> or \<open>-0\<close>.
\<close>

fun is_finite :: "double \<Rightarrow> bool" where
  "is_finite (Finite s m e) = True"
| "is_finite (Infinity s) = False"
| "is_finite NaN = False"

definition alike :: "double \<Rightarrow> double \<Rightarrow> bool" where
  "alike x y \<longleftrightarrow>
     x = y \<or> ((x = Finite False 0 0 \<or> x = Finite True 0 0) \<and> (y = Finite False 0 0 \<or> y = Finite True 0 0))"

section \<open>JuliaSet.c: the escape-time evaluator\<close>

text \<open>\<^verbatim>\<open>double complex f (double complex Z, double complex C) { return ((Z * Z) + C); }\<close>\<close>

definition f :: "('d, 'c) arith \<Rightarrow> 'c \<Rightarrow> 'c \<Rightarrow> 'c" where
  "f fp Z C = cadd fp (cmul fp Z Z) C"

text \<open>\<^verbatim>\<open>return sqrt( (creal(Z) * creal(Z)) + (cimag(Z) * cimag(Z)) );\<close>\<close>

definition distanceFromOrigin :: "('d, 'c) arith \<Rightarrow> 'c \<Rightarrow> 'd" where
  "distanceFromOrigin fp Z =
     fsqrt fp (fadd fp (fmul fp (creal fp Z) (creal fp Z)) (fmul fp (cimag fp Z) (cimag fp Z)))"

text \<open>
  The \<open>int\<close> object that \<open>stageEliminated\<close> points to: its value, and the number of stores
  made to it so far.
\<close>

record buffer =
  contents :: int
  stores :: nat

definition write_buffer :: "int \<Rightarrow> buffer \<Rightarrow> buffer" where
  "write_buffer v buf = \<lparr> contents = v, stores = Suc (stores buf) \<rparr>"

text \<open>
  The loop of \<open>isInJuliaSet\<close>, from the value \<open>i\<close> of its counter. The counter and the bound
  are both \<open>int\<close> in the source and \<open>i < numIterations\<close> holds before \<open>i++\<close>, so the
  increment cannot overflow.
\<close>

function isInJuliaSet_loop ::
  "('d, 'c) arith \<Rightarrow> 'c \<Rightarrow> int \<Rightarrow> int \<Rightarrow> 'c \<Rightarrow> 'c \<Rightarrow> buffer \<Rightarrow> bool \<times> buffer" where
  "isInJuliaSet_loop fp C numIterations i prevZ currentZ stageEliminated =
     (if i < numIterations then
        (let currentZ' = f fp currentZ C in
         if fgt fp (distanceFromOrigin fp currentZ') (flit fp 2) then
           (False, write_buffer i stageEliminated)
         else if ceq fp currentZ' prevZ then
           (True, stageEliminated)
         else isInJuliaSet_loop fp C numIterations (i + 1) currentZ' currentZ' stageEliminated)
      else (True, stageEliminated))"
  by pat_completeness auto
termination
  by (relation "measure (\<lambda>(fp, C, numIterations, i, prevZ, currentZ, stageEliminated).
                  nat (numIterations - i))") auto

definition isInJuliaSet ::
  "('d, 'c) arith \<Rightarrow> 'c \<Rightarrow> 'c \<Rightarrow> int \<Rightarrow> buffer \<Rightarrow> bool \<times> buffer" where
  "isInJuliaSet fp Z C numIterations stageEliminated =
     isInJuliaSet_loop fp C numIterations 0 Z Z stageEliminated"

text \<open>The orbit of \<open>Z\<close>: \<open>current \<leftarrow> current\<^sup>2 + C\<close>, starting from \<open>current = Z\<close>.\<close>

fun orbit :: "('d, 'c) arith \<Rightarrow> 'c \<Rightarrow> 'c \<Rightarrow> nat \<Rightarrow> 'c" where
  "orbit fp Z C 0 = Z"
| "orbit fp Z C (Suc k) = f fp (orbit fp Z C k) C"

text \<open>The escape test of the loop, and its fixed-point test, on the orbit.\<close>

definition escaped :: "('d, 'c) arith \<Rightarrow> 'c \<Rightarrow> bool" where
  "escaped fp Z = fgt fp (distanceFromOrigin fp Z) (flit fp 2)"

definition escapes_at :: "('d, 'c) arith \<Rightarrow> 'c \<Rightarrow> 'c \<Rightarrow> nat \<Rightarrow> bool" where
  "escapes_at fp Z C k = escaped fp (orbit fp Z C (Suc k))"

definition repeats_at :: "('d, 'c) arith \<Rightarrow> 'c \<Rightarrow> 'c \<Rightarrow> nat \<Rightarrow> bool" where
  "repeats_at fp Z C k = ceq fp (orbit fp Z C (Suc k)) (orbit fp Z C k)"

text \<open>
  The orbit the specification speaks of, in the complex numbers and without the functions
  of the program: \<open>current \<leftarrow> current\<^sup>2 + C\<close>, starting from \<open>current = Z\<close>.
\<close>

fun julia_orbit :: "complex \<Rightarrow> complex \<Rightarrow> nat \<Rightarrow> complex" where
  "julia_orbit Z C 0 = Z"
| "julia_orbit Z C (Suc k) = julia_orbit Z C k * julia_orbit Z C k + C"

section \<open>HelperFunctions.c: window coordinates to plane coordinates\<close>

text \<open>\<^verbatim>\<open>return (planeWidth * ( ((double)x / (double)windowWidth) - 0.5 ) + centerX);\<close>\<close>

definition XTransform :: "('d, 'c) arith \<Rightarrow> int \<Rightarrow> 'd \<Rightarrow> 'd \<Rightarrow> int \<Rightarrow> 'd" where
  "XTransform fp x centerX planeWidth windowWidth =
     fadd fp (fmul fp planeWidth
                (fsub fp (fdiv fp (f_of_int fp x) (f_of_int fp windowWidth)) (flit fp (1/2))))
             centerX"

text \<open>\<^verbatim>\<open>return (planeHeight * ( 0.5 - ((double)y / (double)windowHeight) ) + centerY);\<close>\<close>

definition YTransform :: "('d, 'c) arith \<Rightarrow> int \<Rightarrow> 'd \<Rightarrow> 'd \<Rightarrow> int \<Rightarrow> 'd" where
  "YTransform fp y centerY planeHeight windowHeight =
     fadd fp (fmul fp planeHeight
                (fsub fp (flit fp (1/2)) (fdiv fp (f_of_int fp y) (f_of_int fp windowHeight))))
             centerY"

section \<open>Drawing.h, Drawing.c: the colours\<close>

text \<open>\<open>SDL_Color\<close>: four \<open>Uint8\<close> channels.\<close>

record SDL_Color =
  r :: "8 word"
  g :: "8 word"
  b :: "8 word"
  a :: "8 word"

definition RED_IN_SET :: int where "RED_IN_SET = 0"
definition GREEN_IN_SET :: int where "GREEN_IN_SET = 0"
definition BLUE_IN_SET :: int where "BLUE_IN_SET = 0"
definition OPACITY_IN_SET :: int where "OPACITY_IN_SET = 255"

definition RED_OUTOF_SET :: int where "RED_OUTOF_SET = 10"
definition GREEN_OUTOF_SET :: int where "GREEN_OUTOF_SET = 10"
definition BLUE_OUTOF_SET :: int where "BLUE_OUTOF_SET = 30"
definition OPACITY_OUTOF_SET :: int where "OPACITY_OUTOF_SET = 255"

text \<open>The deltas \<open>1.6\<close>, \<open>0.8\<close> and \<open>1.4\<close> are floating constants; \<open>OPACITY_DELTA\<close> is the integer \<open>0\<close>.\<close>

definition RED_DELTA :: rat where "RED_DELTA = 16 / 10"
definition GREEN_DELTA :: rat where "GREEN_DELTA = 8 / 10"
definition BLUE_DELTA :: rat where "BLUE_DELTA = 14 / 10"
definition OPACITY_DELTA :: int where "OPACITY_DELTA = 0"

text \<open>An \<open>int\<close> stored into a \<open>Uint8\<close> is reduced modulo 256.\<close>

definition colorInSet :: SDL_Color where
  "colorInSet = \<lparr> r = word_of_int RED_IN_SET, g = word_of_int GREEN_IN_SET,
                   b = word_of_int BLUE_IN_SET, a = word_of_int OPACITY_IN_SET \<rparr>"

text \<open>
  The value of \<open>BASE + (DELTA * stageEliminated)\<close> before it is stored into a channel:
  the integer base and the stage are converted to \<open>double\<close>.
\<close>

definition channel_value :: "('d, 'c) arith \<Rightarrow> int \<Rightarrow> rat \<Rightarrow> int \<Rightarrow> 'd" where
  "channel_value fp base delta stageEliminated =
     fadd fp (f_of_int fp base) (fmul fp (flit fp delta) (f_of_int fp stageEliminated))"

text \<open>
  \<open>colorOutOfSet\<close>. The red, green and blue values are doubles converted to \<open>Uint8\<close>; the
  opacity is computed on integers. The result is \<open>None\<close> when a conversion is undefined.
\<close>

definition colorOutOfSet :: "('d, 'c) arith \<Rightarrow> int \<Rightarrow> SDL_Color option" where
  "colorOutOfSet fp stageEliminated =
     (case f_to_uint8 fp (channel_value fp RED_OUTOF_SET RED_DELTA stageEliminated) of
        None \<Rightarrow> None
      | Some red \<Rightarrow>
     (case f_to_uint8 fp (channel_value fp GREEN_OUTOF_SET GREEN_DELTA stageEliminated) of
        None \<Rightarrow> None
      | Some green \<Rightarrow>
     (case f_to_uint8 fp (channel_value fp BLUE_OUTOF_SET BLUE_DELTA stageEliminated) of
        None \<Rightarrow> None
      | Some blue \<Rightarrow>
          Some \<lparr> r = red, g = green, b = blue,
                 a = word_of_int (OPACITY_OUTOF_SET + OPACITY_DELTA * stageEliminated) \<rparr>)))"

section \<open>JuliaSet.c: filling the colour map\<close>

definition INT_MAX :: int where "INT_MAX = 2147483647"
definition INT_MIN :: int where "INT_MIN = - 2147483648"

text \<open>
  A store \<open>colorMap[x][y] = colour\<close>. The only effect of \<open>fillJuliaSet\<close> outside its own
  variables is the sequence of such stores it performs; the model returns that sequence,
  in program order. Every \<open>None\<close> below stands for an execution without a defined result.
\<close>

type_synonym pixel_store = "(int \<times> int) \<times> SDL_Color"

text \<open>
  The body of the inner loop for the pixel \<open>(x, y)\<close>: the new contents of the local variable
  \<open>stageEliminated\<close> and the colour stored into \<open>colorMap[x][y]\<close>.
\<close>

definition fill_pixel ::
  "('d, 'c) arith \<Rightarrow> 'd \<Rightarrow> 'd \<Rightarrow> 'd \<Rightarrow> 'd \<Rightarrow> int \<Rightarrow> int \<Rightarrow> int \<Rightarrow> 'c \<Rightarrow> int \<Rightarrow> int \<Rightarrow> buffer
   \<Rightarrow> (buffer \<times> SDL_Color) option" where
  "fill_pixel fp centerX centerY planeWidth planeHeight windowWidth windowHeight numIterations C
     x y stageEliminated =
     (let compX = XTransform fp x centerX planeWidth windowWidth;
          compY = YTransform fp y centerY planeHeight windowHeight;
          Z = cmplx fp compX compY
      in case isInJuliaSet fp Z C numIterations stageEliminated of
           (True, stageEliminated') \<Rightarrow> Some (stageEliminated', colorInSet)
         | (False, stageEliminated') \<Rightarrow>
             (case colorOutOfSet fp (contents stageEliminated') of
                None \<Rightarrow> None
              | Some colour \<Rightarrow> Some (stageEliminated', colour)))"

text \<open>
  The inner loop \<^verbatim>\<open>for (int y = 0; y < windowHeight; y++)\<close>, from the value \<open>y\<close> of its
  counter. The counter is an \<open>int\<close> and the bound a \<open>long\<close>: \<open>y++\<close> at \<open>INT_MAX\<close> is a signed
  overflow. The array has \<open>windowWidth\<close> columns, so a store into a column \<open>x < 0\<close> is out
  of bounds.
\<close>

function fill_column ::
  "('d, 'c) arith \<Rightarrow> 'd \<Rightarrow> 'd \<Rightarrow> 'd \<Rightarrow> 'd \<Rightarrow> int \<Rightarrow> int \<Rightarrow> int \<Rightarrow> 'c \<Rightarrow> int \<Rightarrow> int \<Rightarrow> buffer
   \<Rightarrow> (buffer \<times> pixel_store list) option" where
  "fill_column fp centerX centerY planeWidth planeHeight windowWidth windowHeight numIterations C
     x y stageEliminated =
     (if y < windowHeight then
        (case fill_pixel fp centerX centerY planeWidth planeHeight windowWidth windowHeight
                numIterations C x y stageEliminated of
           None \<Rightarrow> None
         | Some (stageEliminated', colour) \<Rightarrow>
             if x < 0 then None
             else if INT_MAX < y + 1 then None
             else
               (case fill_column fp centerX centerY planeWidth planeHeight windowWidth windowHeight
                       numIterations C x (y + 1) stageEliminated' of
                  None \<Rightarrow> None
                | Some (stageEliminated'', ws) \<Rightarrow> Some (stageEliminated'', ((x, y), colour) # ws)))
      else Some (stageEliminated, []))"
  by pat_completeness auto
termination
  by (relation "measure (\<lambda>(fp, centerX, centerY, planeWidth, planeHeight, windowWidth, windowHeight,
                           numIterations, C, x, y, stageEliminated). nat (windowHeight - y))") auto

text \<open>
  The outer loop \<^verbatim>\<open>for (int x = threadID; x < windowWidth; x += numberOfThreads)\<close>, from the
  value \<open>x\<close> of its counter. With \<open>numberOfThreads = 0\<close> it does not return, so the function
  is partial; \<open>x += numberOfThreads\<close> beyond the range of \<open>int\<close> is a signed overflow.
\<close>

partial_function (option) fill_columns ::
  "('d, 'c) arith \<Rightarrow> 'd \<Rightarrow> 'd \<Rightarrow> 'd \<Rightarrow> 'd \<Rightarrow> int \<Rightarrow> int \<Rightarrow> int \<Rightarrow> 'c \<Rightarrow> int \<Rightarrow> int \<Rightarrow> buffer
   \<Rightarrow> pixel_store list option" where
  "fill_columns fp centerX centerY planeWidth planeHeight windowWidth windowHeight numIterations C
     numberOfThreads x stageEliminated =
     (if x < windowWidth then
        (case fill_column fp centerX centerY planeWidth planeHeight windowWidth windowHeight
                numIterations C x 0 stageEliminated of
           None \<Rightarrow> None
         | Some (stageEliminated', ws) \<Rightarrow>
             if INT_MAX < x + numberOfThreads \<or> x + numberOfThreads < INT_MIN then None
             else
               Option.bind
                 (fill_columns fp centerX centerY planeWidth planeHeight windowWidth windowHeight
                    numIterations C numberOfThreads (x + numberOfThreads) stageEliminated')
                 (\<lambda>ws'. Some (ws @ ws')))
      else Some [])"

text \<open>\<open>fillJuliaSet\<close>: \<^verbatim>\<open>int stageEliminated = -1;\<close> and the outer loop from \<open>x = threadID\<close>.\<close>

definition fillJuliaSet ::
  "('d, 'c) arith \<Rightarrow> 'd \<Rightarrow> 'd \<Rightarrow> 'd \<Rightarrow> 'd \<Rightarrow> int \<Rightarrow> int \<Rightarrow> int \<Rightarrow> 'c \<Rightarrow> int \<Rightarrow> int
   \<Rightarrow> pixel_store list option" where
  "fillJuliaSet fp centerX centerY planeWidth planeHeight windowWidth windowHeight numIterations C
     numberOfThreads threadID =
     fill_columns fp centerX centerY planeWidth planeHeight windowWidth windowHeight numIterations C
       numberOfThreads threadID \<lparr> contents = - 1, stores = 0 \<rparr>"

text \<open>The colour map as a function of the pixel, and the effect of a sequence of stores on it.\<close>

type_synonym colorMap = "int \<times> int \<Rightarrow> SDL_Color"

fun run_stores :: "pixel_store list \<Rightarrow> colorMap \<Rightarrow> colorMap" where
  "run_stores [] colorMap = colorMap"
| "run_stores ((p, colour) # ws) colorMap = run_stores ws (colorMap(p := colour))"

text \<open>
  The colour that the loop body stores for a pixel. It is computed from a fresh
  \<open>stageEliminated\<close>; the colour stored does not depend on what the variable held before.
\<close>

definition pixel_colour ::
  "('d, 'c) arith \<Rightarrow> 'd \<Rightarrow> 'd \<Rightarrow> 'd \<Rightarrow> 'd \<Rightarrow> int \<Rightarrow> int \<Rightarrow> int \<Rightarrow> 'c \<Rightarrow> int \<times> int \<Rightarrow> SDL_Color option" where
  "pixel_colour fp centerX centerY planeWidth planeHeight windowWidth windowHeight numIterations C p =
     map_option snd
       (fill_pixel fp centerX centerY planeWidth planeHeight windowWidth windowHeight numIterations C
          (fst p) (snd p) \<lparr> contents = - 1, stores = 0 \<rparr>)"

section \<open>Project04\_01.c: the threads\<close>

definition NUM_ITERATIONS :: int where "NUM_ITERATIONS = 100"

text \<open>
  \<open>main\<close> starts one thread for each \<open>threadID\<close> in \<open>0 .. numberOfThreads - 1\<close>; each runs
  \<open>partialFill\<close>, that is \<open>fillJuliaSet\<close> with its own \<open>threadID\<close>, on the one colour map,
  and \<open>main\<close> waits for all of them. The stores of the threads reach the map in some
  interleaving: each thread's stores in its program order, the threads in any order.
\<close>

inductive interleaving :: "'e list list \<Rightarrow> 'e list \<Rightarrow> bool" where
  finished: "\<forall>t \<in> set ts. t = [] \<Longrightarrow> interleaving ts []"
| step: "i < length ts \<Longrightarrow> ts ! i = e # rest \<Longrightarrow> interleaving (ts[i := rest]) es
         \<Longrightarrow> interleaving ts (e # es)"

definition thread_stores ::
  "('d, 'c) arith \<Rightarrow> 'd \<Rightarrow> 'd \<Rightarrow> 'd \<Rightarrow> 'd \<Rightarrow> int \<Rightarrow> int \<Rightarrow> int \<Rightarrow> 'c \<Rightarrow> int
   \<Rightarrow> pixel_store list option list" where
  "thread_stores fp centerX centerY planeWidth planeHeight windowWidth windowHeight numIterations C
     numberOfThreads =
     map (\<lambda>threadID. fillJuliaSet fp centerX centerY planeWidth planeHeight windowWidth windowHeight
                        numIterations C numberOfThreads threadID)
         [0 .. numberOfThreads - 1]"

text \<open>
  \<open>colorMap'\<close> is a colour map that the threads can leave behind when they start on
  \<open>colorMap\<close>: every thread returns, and the stores are applied in some interleaving.
\<close>

definition threads_fill ::
  "('d, 'c) arith \<Rightarrow> 'd \<Rightarrow> 'd \<Rightarrow> 'd \<Rightarrow> 'd \<Rightarrow> int \<Rightarrow> int \<Rightarrow> int \<Rightarrow> 'c \<Rightarrow> int
   \<Rightarrow> colorMap \<Rightarrow> colorMap \<Rightarrow> bool" where
  "threads_fill fp centerX centerY planeWidth planeHeight windowWidth windowHeight numIterations C
     numberOfThreads colorMap colorMap' \<longleftrightarrow>
     (\<exists>ts ws. thread_stores fp centerX centerY planeWidth planeHeight windowWidth windowHeight
                 numIterations C numberOfThreads = map Some ts
             \<and> interleaving ts ws \<and> colorMap' = run_stores ws colorMap)"

section \<open>The escape-time loop without the fixed-point test\<close>

text \<open>
  The loop the specification compares \<open>isInJuliaSet\<close> with: \<open>isInJuliaSet\<close> as it is in the
  source, in the arithmetic of the program, with the test \<^verbatim>\<open>if (currentZ == prevZ)\<close> taken out,
  and with the classification as its only result.
\<close>

function loop_without_test :: "('d, 'c) arith \<Rightarrow> 'c \<Rightarrow> int \<Rightarrow> int \<Rightarrow> 'c \<Rightarrow> bool" where
  "loop_without_test fp C numIterations i currentZ =
     (if i < numIterations then
        (let currentZ' = f fp currentZ C in
         if fgt fp (distanceFromOrigin fp currentZ') (flit fp 2) then False
         else loop_without_test fp C numIterations (i + 1) currentZ')
      else True)"
  by pat_completeness auto
termination
  by (relation "measure (\<lambda>(fp, C, numIterations, i, currentZ). nat (numIterations - i))") auto

definition isInJuliaSet_without_test :: "('d, 'c) arith \<Rightarrow> 'c \<Rightarrow> 'c \<Rightarrow> int \<Rightarrow> bool" where
  "isInJuliaSet_without_test fp Z C numIterations = loop_without_test fp C numIterations 0 Z"

text \<open>
  The same loop in the complex numbers and without the functions of the program: up to
  \<open>numIterations\<close> times \<open>current \<leftarrow> current\<^sup>2 + C\<close>, answering "not in the set" as soon as the
  distance of \<open>current\<close> from the origin exceeds 2, and "in the set" when the iterations are
  used up.
\<close>

function escape_time_loop :: "complex \<Rightarrow> int \<Rightarrow> int \<Rightarrow> complex \<Rightarrow> bool" where
  "escape_time_loop C numIterations i current =
     (if i < numIterations then
        (if 2 < cmod (current * current + C) then False
         else escape_time_loop C numIterations (i + 1) (current * current + C))
      else True)"
  by pat_completeness auto
termination
  by (relation "measure (\<lambda>(C, numIterations, i, current). nat (numIterations - i))") auto

definition escape_time :: "complex \<Rightarrow> complex \<Rightarrow> int \<Rightarrow> bool" where
  "escape_time Z C numIterations = escape_time_loop C numIterations 0 Z"

section \<open>Properties of the evaluator\<close>

declare isInJuliaSet_loop.simps [simp del]

lemma loop_finished:
  "\<not> i < N \<Longrightarrow> isInJuliaSet_loop fp C N i p z st = (True, st)"
  by (simp add: isInJuliaSet_loop.simps)

lemma loop_escape:
  "i < N \<Longrightarrow> escaped fp (f fp z C) \<Longrightarrow>
   isInJuliaSet_loop fp C N i p z st = (False, write_buffer i st)"
  by (simp add: isInJuliaSet_loop.simps [of fp C N i] escaped_def Let_def)

lemma loop_repeat:
  "i < N \<Longrightarrow> \<not> escaped fp (f fp z C) \<Longrightarrow> ceq fp (f fp z C) p \<Longrightarrow>
   isInJuliaSet_loop fp C N i p z st = (True, st)"
  by (simp add: isInJuliaSet_loop.simps [of fp C N i] escaped_def Let_def)

lemma loop_continue:
  "i < N \<Longrightarrow> \<not> escaped fp (f fp z C) \<Longrightarrow> \<not> ceq fp (f fp z C) p \<Longrightarrow>
   isInJuliaSet_loop fp C N i p z st =
   isInJuliaSet_loop fp C N (i + 1) (f fp z C) (f fp z C) st"
  by (simp add: isInJuliaSet_loop.simps [of fp C N i] escaped_def Let_def)

text \<open>
  Running the loop from iteration \<open>m\<close>, on entry to which both variables hold the \<open>m\<close>-th
  point of the orbit: \<open>k\<close> further quiet iterations lead to iteration \<open>m + k\<close>.
\<close>

lemma loop_quiet_steps:
  assumes "\<forall>j. m \<le> j \<and> j < m + k \<longrightarrow> \<not> escapes_at fp Z C j \<and> \<not> repeats_at fp Z C j"
    and "int (m + k) \<le> N"
  shows "isInJuliaSet_loop fp C N (int m) (orbit fp Z C m) (orbit fp Z C m) st =
         isInJuliaSet_loop fp C N (int (m + k)) (orbit fp Z C (m + k)) (orbit fp Z C (m + k)) st"
  using assms
proof (induction k arbitrary: m)
  case 0
  then show ?case by simp
next
  case (Suc k)
  have quiet: "\<not> escapes_at fp Z C m" "\<not> repeats_at fp Z C m"
    using Suc.prems(1) by auto
  have lt: "int m < N"
    using Suc.prems(2) by simp
  have step: "isInJuliaSet_loop fp C N (int m) (orbit fp Z C m) (orbit fp Z C m) st =
              isInJuliaSet_loop fp C N (int (Suc m)) (orbit fp Z C (Suc m)) (orbit fp Z C (Suc m)) st"
    using loop_continue [OF lt, of fp "orbit fp Z C m" C "orbit fp Z C m" st] quiet
    by (simp add: escapes_at_def repeats_at_def add.commute)
  have rest: "isInJuliaSet_loop fp C N (int (Suc m)) (orbit fp Z C (Suc m)) (orbit fp Z C (Suc m)) st =
              isInJuliaSet_loop fp C N (int (Suc m + k)) (orbit fp Z C (Suc m + k))
                (orbit fp Z C (Suc m + k)) st"
  proof (rule Suc.IH)
    show "\<forall>j. Suc m \<le> j \<and> j < Suc m + k \<longrightarrow> \<not> escapes_at fp Z C j \<and> \<not> repeats_at fp Z C j"
      using Suc.prems(1) by simp
    show "int (Suc m + k) \<le> N"
      using Suc.prems(2) by simp
  qed
  show ?case
    using step rest by simp
qed

subsection \<open>The evaluator in exact arithmetic\<close>

lemma f_exact: "f exact Z C = Z * Z + C"
  by (simp add: f_def exact_def)

lemma escaped_exact: "escaped exact Z \<longleftrightarrow> 2 < cmod Z"
  by (simp add: escaped_def distanceFromOrigin_def exact_def cmod_def power2_eq_square)

lemma ceq_exact: "ceq exact u v \<longleftrightarrow> u = v"
  by (simp add: exact_def)

lemma known_escape_exact:
  assumes "2 < cmod Z" and "1 \<le> N"
  shows "isInJuliaSet exact Z 0 N st = (False, write_buffer 0 st)"
proof -
  have "2 * 2 < cmod Z * cmod Z"
    using assms(1) by (intro mult_strict_mono) auto
  then have "escaped exact (f exact Z 0)"
    by (simp add: escaped_exact f_exact norm_mult)
  then show ?thesis
    using assms(2) by (simp add: isInJuliaSet_def loop_escape)
qed

subsection \<open>The evaluator in binary64 arithmetic\<close>

declare bitlength.simps [simp del]
declare isqrt.simps [simp del]

lemmas binary64_rounding = round_to_double_def finite_or_infinity_def scale_significand_def
  round_half_even_def result_exponent_def bitlength.simps

lemmas binary64_operations = f_def distanceFromOrigin_def binary64_def dc_mul_def product_re_def
  product_im_def dsub_def sum_to_double_def aligned_def root_with_sticky_def isqrt.simps
  isqrt_step_def

text \<open>The constant \<open>2.0\<close> of the escape test is the double \<open>2\<^sup>5\<^sup>2 \<sqdot> 2\<^sup>-\<^sup>5\<^sup>1\<close>.\<close>

lemma d_lit_2: "d_lit 2 = Finite False 4503599627370496 (- 51)"
  by (simp add: d_lit_def round_quotient_def quotient_with_sticky_def binary64_rounding)

text \<open>
  A point just outside the circle of radius 2. With \<open>Z = 0\<close> and \<open>C = 2 + 2\<^sup>-\<^sup>3\<^sup>0 i\<close>, both
  doubles, iteration 0 leaves \<open>current = C\<close>, whose distance from the origin is
  \<open>sqrt (4 + 2\<^sup>-\<^sup>6\<^sup>0) > 2\<close>. The program computes \<open>4 + 2\<^sup>-\<^sup>6\<^sup>0\<close> in a double, where it rounds
  to \<open>4\<close>, takes the root \<open>2\<close>, and finds that \<open>2 > 2.0\<close> does not hold. Iteration 1 leaves
  \<open>current = 6 + 5 \<sqdot> 2\<^sup>-\<^sup>3\<^sup>0 i\<close>, which the program sees outside.
\<close>

lemma boundary_step_0:
  "f (binary64 rc) (Finite False 0 0, Finite False 0 0)
     (Finite False 4503599627370496 (- 51), Finite False 4503599627370496 (- 82))
   = (Finite False 4503599627370496 (- 51), Finite False 4503599627370496 (- 82))"
  by (simp add: binary64_operations binary64_rounding)

lemma boundary_distance_0:
  "distanceFromOrigin (binary64 rc)
     (Finite False 4503599627370496 (- 51), Finite False 4503599627370496 (- 82))
   = Finite False 4503599627370496 (- 51)"
  by (simp add: binary64_operations binary64_rounding)

lemma boundary_step_1:
  "f (binary64 rc) (Finite False 4503599627370496 (- 51), Finite False 4503599627370496 (- 82))
     (Finite False 4503599627370496 (- 51), Finite False 4503599627370496 (- 82))
   = (Finite False 6755399441055744 (- 50), Finite False 5629499534213120 (- 80))"
  by (simp add: binary64_operations binary64_rounding)

lemma boundary_distance_1:
  "distanceFromOrigin (binary64 rc)
     (Finite False 6755399441055744 (- 50), Finite False 5629499534213120 (- 80))
   = Finite False 6755399441055744 (- 50)"
  by (simp add: binary64_operations binary64_rounding)

lemma boundary_not_escaped:
  "\<not> escaped (binary64 rc)
        (Finite False 4503599627370496 (- 51), Finite False 4503599627370496 (- 82))"
  unfolding escaped_def boundary_distance_0 by (simp add: binary64_def d_lit_2 aligned_def)

lemma boundary_escaped:
  "escaped (binary64 rc) (Finite False 6755399441055744 (- 50), Finite False 5629499534213120 (- 80))"
  unfolding escaped_def boundary_distance_1 by (simp add: binary64_def d_lit_2 aligned_def)

lemma boundary_not_repeated:
  "\<not> ceq (binary64 rc)
        (Finite False 4503599627370496 (- 51), Finite False 4503599627370496 (- 82))
        (Finite False 0 0, Finite False 0 0)"
  by (simp add: binary64_def aligned_def)

lemma boundary_run:
  "isInJuliaSet (binary64 rc) (Finite False 0 0, Finite False 0 0)
     (Finite False 4503599627370496 (- 51), Finite False 4503599627370496 (- 82)) 5 st
   = (False, write_buffer 1 st)"
  unfolding isInJuliaSet_def
  by (simp add: loop_continue [where i = 0] loop_escape [where i = 1] boundary_step_0
      boundary_step_1 boundary_not_escaped boundary_escaped boundary_not_repeated)

lemma boundary_is_outside:
  "2 < cmod (Complex (valof (Finite False 4503599627370496 (- 51)))
                     (valof (Finite False 4503599627370496 (- 82))))"
proof -
  have "2 = sqrt (2 ^ 2)"
    by simp
  also have "\<dots> < sqrt ((valof (Finite False 4503599627370496 (- 51)))\<^sup>2
                       + (valof (Finite False 4503599627370496 (- 82)))\<^sup>2)"
    by (subst real_sqrt_less_iff) simp
  finally show ?thesis
    by (simp add: cmod_def)
qed

text \<open>
  A point far outside. With \<open>Z = 2\<^sup>6\<^sup>0\<^sup>0 + 2\<^sup>6\<^sup>0\<^sup>0 i\<close> and \<open>C = 0\<close> the squares \<open>2\<^sup>1\<^sup>2\<^sup>0\<^sup>0\<close> are
  infinities in a double: the real part of \<open>Z * Z\<close> is \<open>\<infinity> - \<infinity>\<close>, which is NaN, its
  imaginary part is \<open>\<infinity>\<close>, the distance from the origin is NaN, and \<open>NaN > 2.0\<close> does not
  hold.
\<close>

lemma huge_step:
  "f (binary64 rc) (Finite False 1 600, Finite False 1 600) (Finite False 0 0, Finite False 0 0)
   = (NaN, Infinity False)"
  by (simp add: binary64_operations binary64_rounding)

lemma huge_distance: "distanceFromOrigin (binary64 rc) (NaN, Infinity False) = NaN"
  by (simp add: binary64_operations)

lemma huge_not_escaped: "\<not> escaped (binary64 rc) (NaN, Infinity False)"
  unfolding escaped_def huge_distance by (simp add: binary64_def d_lit_2)

lemma huge_not_repeated:
  "\<not> ceq (binary64 rc) (NaN, Infinity False) (Finite False 1 600, Finite False 1 600)"
  by (simp add: binary64_def)

lemma huge_run:
  "isInJuliaSet (binary64 rc) (Finite False 1 600, Finite False 1 600)
     (Finite False 0 0, Finite False 0 0) 1 st = (True, st)"
  unfolding isInJuliaSet_def
  by (simp add: loop_continue [where i = 0] loop_finished huge_step huge_not_escaped
      huge_not_repeated del: One_nat_def)

lemma huge_is_outside:
  "2 < cmod (Complex (valof (Finite False 1 600)) (valof (Finite False 1 600)))"
proof -
  have "(2::real) = 2 ^ 1"
    by simp
  also have "\<dots> < 2 ^ 600"
    by (rule power_strict_increasing) simp_all
  also have "\<dots> = \<bar>Re (Complex (valof (Finite False 1 600)) (valof (Finite False 1 600)))\<bar>"
    by simp
  also have "\<dots> \<le> cmod (Complex (valof (Finite False 1 600)) (valof (Finite False 1 600)))"
    by (rule abs_Re_le_cmod)
  finally show ?thesis .
qed

subsection \<open>Escape, and completion of all iterations\<close>

text \<open>
  For every arithmetic the loop follows the orbit that its own step function generates,
  up to the first iteration that escapes or repeats.
\<close>

lemma loop_follows_orbit:
  "(int k < N \<and> (\<forall>j<k. \<not> escapes_at fp Z C j \<and> \<not> repeats_at fp Z C j) \<and> escapes_at fp Z C k
      \<longrightarrow> isInJuliaSet fp Z C N st = (False, write_buffer (int k) st))
   \<and> ((\<forall>j. int j < N \<longrightarrow> \<not> escapes_at fp Z C j \<and> \<not> repeats_at fp Z C j)
      \<longrightarrow> isInJuliaSet fp Z C N st = (True, st))"
proof (intro conjI impI)
  assume h: "int k < N \<and> (\<forall>j<k. \<not> escapes_at fp Z C j \<and> \<not> repeats_at fp Z C j) \<and> escapes_at fp Z C k"
  have "isInJuliaSet_loop fp C N (int 0) (orbit fp Z C 0) (orbit fp Z C 0) st =
        isInJuliaSet_loop fp C N (int (0 + k)) (orbit fp Z C (0 + k)) (orbit fp Z C (0 + k)) st"
    by (rule loop_quiet_steps) (use h in auto)
  also have "\<dots> = (False, write_buffer (int k) st)"
    using h loop_escape [of "int k" N fp "orbit fp Z C k" C "orbit fp Z C k" st]
    by (simp add: escapes_at_def)
  finally show "isInJuliaSet fp Z C N st = (False, write_buffer (int k) st)"
    by (simp add: isInJuliaSet_def)
next
  assume h: "\<forall>j. int j < N \<longrightarrow> \<not> escapes_at fp Z C j \<and> \<not> repeats_at fp Z C j"
  show "isInJuliaSet fp Z C N st = (True, st)"
  proof (cases "0 \<le> N")
    case False
    then show ?thesis
      by (simp add: isInJuliaSet_def loop_finished)
  next
    case True
    have "isInJuliaSet_loop fp C N (int 0) (orbit fp Z C 0) (orbit fp Z C 0) st =
          isInJuliaSet_loop fp C N (int (0 + nat N)) (orbit fp Z C (0 + nat N))
            (orbit fp Z C (0 + nat N)) st"
      by (rule loop_quiet_steps) (use h True in auto)
    also have "\<dots> = (True, st)"
      by (rule loop_finished) simp
    finally show ?thesis
      by (simp add: isInJuliaSet_def)
  qed
qed

lemma orbit_exact: "orbit exact Z C k = julia_orbit Z C k"
  by (induction k) (simp_all add: f_exact)

lemma escapes_at_exact: "escapes_at exact Z C k \<longleftrightarrow> 2 < cmod (julia_orbit Z C (Suc k))"
  unfolding escapes_at_def escaped_exact orbit_exact ..

lemma repeats_at_exact: "repeats_at exact Z C k \<longleftrightarrow> julia_orbit Z C (Suc k) = julia_orbit Z C k"
  unfolding repeats_at_def ceq_exact orbit_exact ..

text \<open>In exact arithmetic an iteration that leaves \<open>current\<close> unchanged leaves it so for ever.\<close>

lemma julia_orbit_fixed:
  "julia_orbit Z C (Suc j) = julia_orbit Z C j \<Longrightarrow> julia_orbit Z C (j + n) = julia_orbit Z C j"
  by (induction n) simp_all

lemma first_escape_not_fixed:
  assumes quiet: "\<forall>j<k. cmod (julia_orbit Z C (Suc j)) \<le> 2"
    and esc: "2 < cmod (julia_orbit Z C (Suc k))"
    and j: "j < k"
  shows "julia_orbit Z C (Suc j) \<noteq> julia_orbit Z C j"
proof
  assume fixed: "julia_orbit Z C (Suc j) = julia_orbit Z C j"
  have "julia_orbit Z C (j + (Suc k - j)) = julia_orbit Z C j"
    by (rule julia_orbit_fixed [OF fixed])
  moreover have "j + (Suc k - j) = Suc k"
    using j by simp
  ultimately have "julia_orbit Z C (Suc k) = julia_orbit Z C (Suc j)"
    using fixed by simp
  with quiet j esc show False
    by auto
qed

text \<open>
  Claim C1, in exact arithmetic. \<open>isInJuliaSet\<close> follows the orbit
  \<open>current \<leftarrow> current\<^sup>2 + C\<close> from \<open>current = Z\<close>. If iteration \<open>k\<close> (counted from 0,
  \<open>k < numIterations\<close>) is the first at which the Euclidean distance of \<open>current\<close> from the
  origin exceeds 2, the function returns false and stores \<open>k\<close> into \<open>stageEliminated\<close>. If
  no iteration below \<open>numIterations\<close> escapes or leaves \<open>current\<close> unchanged, it returns
  true and stores nothing.
\<close>

theorem isInJuliaSet_escape_time:
  "(int k < N
      \<and> (\<forall>j<k. cmod (julia_orbit Z C (Suc j)) \<le> 2)
      \<and> 2 < cmod (julia_orbit Z C (Suc k))
      \<longrightarrow> isInJuliaSet exact Z C N st = (False, write_buffer (int k) st))
   \<and> ((\<forall>j. int j < N \<longrightarrow>
            cmod (julia_orbit Z C (Suc j)) \<le> 2 \<and> julia_orbit Z C (Suc j) \<noteq> julia_orbit Z C j)
      \<longrightarrow> isInJuliaSet exact Z C N st = (True, st))"
proof (intro conjI impI)
  assume h: "int k < N \<and> (\<forall>j<k. cmod (julia_orbit Z C (Suc j)) \<le> 2)
             \<and> 2 < cmod (julia_orbit Z C (Suc k))"
  then have "\<forall>j<k. julia_orbit Z C (Suc j) \<noteq> julia_orbit Z C j"
    using first_escape_not_fixed [of k Z C] by blast
  with h have "int k < N \<and> (\<forall>j<k. \<not> escapes_at exact Z C j \<and> \<not> repeats_at exact Z C j)
               \<and> escapes_at exact Z C k"
    unfolding escapes_at_exact repeats_at_exact not_less by blast
  then show "isInJuliaSet exact Z C N st = (False, write_buffer (int k) st)"
    using loop_follows_orbit [of k N exact Z C st] by blast
next
  assume "\<forall>j. int j < N \<longrightarrow>
            cmod (julia_orbit Z C (Suc j)) \<le> 2 \<and> julia_orbit Z C (Suc j) \<noteq> julia_orbit Z C j"
  then have "\<forall>j. int j < N \<longrightarrow> \<not> escapes_at exact Z C j \<and> \<not> repeats_at exact Z C j"
    unfolding escapes_at_exact repeats_at_exact not_less .
  then show "isInJuliaSet exact Z C N st = (True, st)"
    using loop_follows_orbit [of k N exact Z C st] by blast
qed

text \<open>
  \<open>Z = 3\<close> with \<open>C = 0\<close> escapes at iteration 0 (\<open>3\<^sup>2 = 9\<close>), and the orbit
  \<open>1/2, 1/4, 1/16\<close> of \<open>Z = 1/2\<close> completes two iterations.
\<close>

theorem isInJuliaSet_escape_time_witness:
  "isInJuliaSet exact 3 0 5 \<lparr>contents = - 1, stores = 0\<rparr> = (False, \<lparr>contents = 0, stores = 1\<rparr>)
   \<and> isInJuliaSet exact (1/2) 0 2 \<lparr>contents = - 1, stores = 0\<rparr> = (True, \<lparr>contents = - 1, stores = 0\<rparr>)"
proof
  have "2 < cmod (julia_orbit 3 0 (Suc 0))"
    by simp
  then show "isInJuliaSet exact 3 0 5 \<lparr>contents = - 1, stores = 0\<rparr> = (False, \<lparr>contents = 0, stores = 1\<rparr>)"
    using isInJuliaSet_escape_time [of 0 5 3 0 "\<lparr>contents = - 1, stores = 0\<rparr>"]
    by (simp add: write_buffer_def)
next
  have q: "cmod (julia_orbit (1/2) 0 (Suc j)) \<le> 2 \<and> julia_orbit (1/2) 0 (Suc j) \<noteq> julia_orbit (1/2) 0 j"
    if "int j < 2" for j
  proof -
    from that have "j = 0 \<or> j = Suc 0" by auto
    then show ?thesis
      by (auto simp: norm_divide norm_power)
  qed
  show "isInJuliaSet exact (1/2) 0 2 \<lparr>contents = - 1, stores = 0\<rparr> = (True, \<lparr>contents = - 1, stores = 0\<rparr>)"
    using isInJuliaSet_escape_time [of 0 2 "1/2" 0 "\<lparr>contents = - 1, stores = 0\<rparr>"] q
    by blast
qed

text \<open>
  In binary64 arithmetic the claim fails at the boundary. With \<open>Z = 0\<close> and
  \<open>C = 2 + 2\<^sup>-\<^sup>3\<^sup>0 i\<close>, iteration 0 leaves \<open>current = C\<close>, at a distance of more than 2 from
  the origin, yet \<open>isInJuliaSet\<close> stores the stage 1, not 0: the sum of squares
  \<open>4 + 2\<^sup>-\<^sup>6\<^sup>0\<close> rounds to \<open>4\<close>. The recovery of infinities in the complex product plays no part.
\<close>

theorem isInJuliaSet_escape_time_counterexample:
  "2 < cmod (Complex (valof (Finite False 4503599627370496 (- 51)))
                     (valof (Finite False 4503599627370496 (- 82))))
   \<and> (\<forall>rc. f (binary64 rc) (Finite False 0 0, Finite False 0 0)
              (Finite False 4503599627370496 (- 51), Finite False 4503599627370496 (- 82))
            = (Finite False 4503599627370496 (- 51), Finite False 4503599627370496 (- 82))
          \<and> isInJuliaSet (binary64 rc) (Finite False 0 0, Finite False 0 0)
              (Finite False 4503599627370496 (- 51), Finite False 4503599627370496 (- 82)) 5
              \<lparr>contents = - 1, stores = 0\<rparr>
            = (False, \<lparr>contents = 1, stores = 1\<rparr>))"
  using boundary_step_0 boundary_is_outside boundary_run
  by (simp add: write_buffer_def)

subsection \<open>Known escape\<close>

text \<open>
  Claim C7 says that every \<open>Z\<close> with \<open>|Z| > 2\<close> is classified as not in the set, with stage 0,
  when \<open>C = 0\<close> and \<open>numIterations \<ge> 1\<close>. In exact arithmetic that is lemma
  \<open>known_escape_exact\<close>. The program fails it where the squares overflow: for
  \<open>Z = 2\<^sup>6\<^sup>0\<^sup>0 + 2\<^sup>6\<^sup>0\<^sup>0 i\<close>, a pair of finite doubles at a distance of more than 2 from the
  origin, with \<open>C = 0\<close> and one iteration, \<open>isInJuliaSet\<close> returns true and stores nothing,
  whatever the recovery of infinities in the complex product.
\<close>

theorem isInJuliaSet_known_escape_counterexample:
  "2 < cmod (Complex (valof (Finite False 1 600)) (valof (Finite False 1 600)))
   \<and> (\<forall>rc. isInJuliaSet (binary64 rc) (Finite False 1 600, Finite False 1 600)
              (Finite False 0 0, Finite False 0 0) 1 \<lparr>contents = - 1, stores = 0\<rparr>
            = (True, \<lparr>contents = - 1, stores = 0\<rparr>))"
  using huge_is_outside huge_run by simp

subsection \<open>Stores to \<open>stageEliminated\<close>\<close>

lemma loop_frame:
  "isInJuliaSet_loop fp C N i p z st = (res, st') \<Longrightarrow>
   (if res then st' = st else \<exists>j. i \<le> j \<and> j < N \<and> st' = write_buffer j st)"
proof (induction fp C N i p z st rule: isInJuliaSet_loop.induct)
  case (1 fp C N i p z st)
  show ?case
  proof (cases "i < N")
    case False
    with "1.prems" show ?thesis by (auto simp: loop_finished)
  next
    case lt: True
    show ?thesis
    proof (cases "escaped fp (f fp z C)")
      case True
      with lt "1.prems" show ?thesis by (auto simp: loop_escape)
    next
      case ne: False
      show ?thesis
      proof (cases "ceq fp (f fp z C) p")
        case True
        with lt ne "1.prems" show ?thesis by (auto simp: loop_repeat)
      next
        case False
        with lt ne "1.prems"
        have "isInJuliaSet_loop fp C N (i + 1) (f fp z C) (f fp z C) st = (res, st')"
          by (simp add: loop_continue)
        with "1.IH" [OF lt refl] ne False
        have later: "if res then st' = st else \<exists>j. i + 1 \<le> j \<and> j < N \<and> st' = write_buffer j st"
          by (simp add: escaped_def)
        show ?thesis
        proof (cases res)
          case True
          with later show ?thesis by simp
        next
          case False
          with later obtain j where "i + 1 \<le> j" "j < N" "st' = write_buffer j st"
            by auto
          then have "i \<le> j \<and> j < N \<and> st' = write_buffer j st"
            by simp
          then show ?thesis
            using False by auto
        qed
      qed
    qed
  qed
qed

lemma isInJuliaSet_frame:
  "isInJuliaSet fp Z C N st = (res, st') \<Longrightarrow>
   (if res then st' = st else \<exists>j. 0 \<le> j \<and> j < N \<and> st' = write_buffer j st)"
  unfolding isInJuliaSet_def by (rule loop_frame)

text \<open>
  Claim C8. \<open>isInJuliaSet\<close> stores to \<open>stageEliminated\<close> exactly when it returns false, and
  then exactly once (the value is an iteration index below \<open>numIterations\<close>); when it
  returns true the buffer is as it was.
\<close>

theorem isInJuliaSet_writes_iff_false:
  "isInJuliaSet fp Z C N st = (res, st') \<Longrightarrow>
   (res \<longrightarrow> st' = st) \<and>
   (\<not> res \<longrightarrow> stores st' = Suc (stores st) \<and> (\<exists>i. 0 \<le> i \<and> i < N \<and> st' = write_buffer i st))"
  using isInJuliaSet_frame [of fp Z C N st res st']
  by (auto simp: write_buffer_def split: if_splits)

lemma isInJuliaSet_exact_3: 
  "isInJuliaSet exact 3 0 5 st = (False, write_buffer 0 st)"
  by (simp add: isInJuliaSet_def loop_escape escaped_exact f_exact)

lemma isInJuliaSet_exact_0:
  "isInJuliaSet exact 0 0 5 st = (True, st)"
  by (simp add: isInJuliaSet_def loop_repeat escaped_exact f_exact ceq_exact)

theorem isInJuliaSet_writes_iff_false_witness:
  "isInJuliaSet exact 3 0 5 \<lparr>contents = - 1, stores = 0\<rparr> = (False, \<lparr>contents = 0, stores = 1\<rparr>)
   \<and> stores \<lparr>contents = 0, stores = 1\<rparr> = Suc (stores \<lparr>contents = - 1, stores = 0\<rparr>)
   \<and> isInJuliaSet exact 0 0 5 \<lparr>contents = - 1, stores = 0\<rparr> = (True, \<lparr>contents = - 1, stores = 0\<rparr>)"
proof -
  have e3: "isInJuliaSet exact 3 0 5 \<lparr>contents = - 1, stores = 0\<rparr> = (False, \<lparr>contents = 0, stores = 1\<rparr>)"
    by (simp add: isInJuliaSet_exact_3 write_buffer_def)
  have e0: "isInJuliaSet exact 0 0 5 \<lparr>contents = - 1, stores = 0\<rparr> = (True, \<lparr>contents = - 1, stores = 0\<rparr>)"
    by (rule isInJuliaSet_exact_0)
  show ?thesis
    using isInJuliaSet_writes_iff_false [OF e3] isInJuliaSet_writes_iff_false [OF e0] e3 e0
    by simp
qed

subsection \<open>A bound that is not positive\<close>

text \<open>
  Claim C9. With \<open>numIterations \<le> 0\<close> the loop body never runs: \<open>isInJuliaSet\<close> returns true
  at once and does not store to \<open>stageEliminated\<close>.
\<close>

theorem isInJuliaSet_nonpositive_bound:
  "N \<le> 0 \<Longrightarrow> isInJuliaSet fp Z C N st = (True, st)"
  by (simp add: isInJuliaSet_def loop_finished)

theorem isInJuliaSet_nonpositive_bound_witness:
  "(0::int) \<le> 0 \<and>
   isInJuliaSet exact 3 0 0 \<lparr>contents = - 1, stores = 0\<rparr> = (True, \<lparr>contents = - 1, stores = 0\<rparr>)"
  using isInJuliaSet_nonpositive_bound [of 0 exact 3 0 "\<lparr>contents = - 1, stores = 0\<rparr>"]
  by simp

section \<open>Properties of the fill\<close>

subsection \<open>One pixel, one column, one thread\<close>

lemma loop_other_buffer:
  "isInJuliaSet_loop fp C N i p z st = (res, st') \<Longrightarrow>
   isInJuliaSet_loop fp C N i p z st2 = (res, if res then st2 else write_buffer (contents st') st2)"
proof (induction fp C N i p z st arbitrary: res st' rule: isInJuliaSet_loop.induct)
  case (1 fp C N i p z st)
  show ?case
  proof (cases "i < N")
    case False
    with "1.prems" show ?thesis by (auto simp: loop_finished)
  next
    case lt: True
    show ?thesis
    proof (cases "escaped fp (f fp z C)")
      case True
      with lt "1.prems" show ?thesis by (auto simp: loop_escape write_buffer_def)
    next
      case ne: False
      show ?thesis
      proof (cases "ceq fp (f fp z C) p")
        case True
        with lt ne "1.prems" show ?thesis by (auto simp: loop_repeat)
      next
        case False
        with lt ne "1.prems"
        have "isInJuliaSet_loop fp C N (i + 1) (f fp z C) (f fp z C) st = (res, st')"
          by (simp add: loop_continue)
        with "1.IH" [OF lt refl] ne False
        have "isInJuliaSet_loop fp C N (i + 1) (f fp z C) (f fp z C) st2 =
              (res, if res then st2 else write_buffer (contents st') st2)"
          by (simp add: escaped_def)
        then show ?thesis
          using lt ne False by (simp add: loop_continue)
      qed
    qed
  qed
qed

lemma fill_pixel_colour:
  "fill_pixel fp cX cY pW pH W H N C x y st = Some (st', colour) \<Longrightarrow>
   pixel_colour fp cX cY pW pH W H N C (x, y) = Some colour"
  "fill_pixel fp cX cY pW pH W H N C x y st = None \<Longrightarrow>
   pixel_colour fp cX cY pW pH W H N C (x, y) = None"
proof -
  define Z where "Z = cmplx fp (XTransform fp x cX pW W) (YTransform fp y cY pH H)"
  obtain res st1 where r: "isInJuliaSet fp Z C N st = (res, st1)"
    by (cases "isInJuliaSet fp Z C N st")
  from loop_other_buffer [OF r [unfolded isInJuliaSet_def], of "\<lparr> contents = - 1, stores = 0 \<rparr>"]
  have r0: "isInJuliaSet fp Z C N \<lparr> contents = - 1, stores = 0 \<rparr> =
            (res, if res then \<lparr> contents = - 1, stores = 0 \<rparr>
                  else write_buffer (contents st1) \<lparr> contents = - 1, stores = 0 \<rparr>)"
    by (simp add: isInJuliaSet_def)
  show "fill_pixel fp cX cY pW pH W H N C x y st = Some (st', colour) \<Longrightarrow>
        pixel_colour fp cX cY pW pH W H N C (x, y) = Some colour"
    using r r0
    by (cases res)
       (auto simp: fill_pixel_def pixel_colour_def Let_def Z_def [symmetric] write_buffer_def
             split: option.splits)
  show "fill_pixel fp cX cY pW pH W H N C x y st = None \<Longrightarrow>
        pixel_colour fp cX cY pW pH W H N C (x, y) = None"
    using r r0
    by (cases res)
       (auto simp: fill_pixel_def pixel_colour_def Let_def Z_def [symmetric] write_buffer_def
             split: option.splits)
qed

lemma pixel_colour_defined:
  assumes "\<forall>s. 0 \<le> s \<and> s < N \<longrightarrow> colorOutOfSet fp s \<noteq> None"
  shows "pixel_colour fp cX cY pW pH W H N C p \<noteq> None"
proof -
  define Z where "Z = cmplx fp (XTransform fp (fst p) cX pW W) (YTransform fp (snd p) cY pH H)"
  obtain res st1 where r: "isInJuliaSet fp Z C N \<lparr> contents = - 1, stores = 0 \<rparr> = (res, st1)"
    by (cases "isInJuliaSet fp Z C N \<lparr> contents = - 1, stores = 0 \<rparr>")
  show ?thesis
  proof (cases res)
    case True
    with r show ?thesis
      by (simp add: pixel_colour_def fill_pixel_def Let_def Z_def [symmetric])
  next
    case False
    with isInJuliaSet_frame [OF r] obtain j where "0 \<le> j" "j < N" "contents st1 = j"
      by (auto simp: write_buffer_def)
    with assms have "colorOutOfSet fp (contents st1) \<noteq> None"
      by simp
    with r False show ?thesis
      by (auto simp: pixel_colour_def fill_pixel_def Let_def Z_def [symmetric])
  qed
qed

declare fill_column.simps [simp del]

lemma fill_column_spec:
  assumes "0 \<le> x" and "H \<le> INT_MAX"
    and "\<forall>y'. y \<le> y' \<and> y' < H \<longrightarrow> pixel_colour fp cX cY pW pH W H N C (x, y') \<noteq> None"
  shows "\<exists>st'. fill_column fp cX cY pW pH W H N C x y st =
           Some (st', map (\<lambda>y'. ((x, y'), the (pixel_colour fp cX cY pW pH W H N C (x, y')))) [y .. H - 1])"
  using assms
proof (induction fp cX cY pW pH W H N C x y st rule: fill_column.induct)
  case (1 fp cX cY pW pH W H N C x y st)
  show ?case
  proof (cases "y < H")
    case False
    then show ?thesis
      by (simp add: fill_column.simps [of fp cX cY pW pH W H N C x y])
  next
    case True
    from "1.prems"(3) True obtain colour where
      pc: "pixel_colour fp cX cY pW pH W H N C (x, y) = Some colour"
      by fastforce
    then obtain st1 where fp1: "fill_pixel fp cX cY pW pH W H N C x y st = Some (st1, colour)"
      using fill_pixel_colour [of fp cX cY pW pH W H N C x y st]
      by (cases "fill_pixel fp cX cY pW pH W H N C x y st") auto
    have ok: "\<not> x < 0" "\<not> INT_MAX < y + 1"
      using "1.prems" True by auto
    have "\<exists>st'. fill_column fp cX cY pW pH W H N C x (y + 1) st1 =
           Some (st', map (\<lambda>y'. ((x, y'), the (pixel_colour fp cX cY pW pH W H N C (x, y')))) [y + 1 .. H - 1])"
      using "1.IH" [OF True fp1 refl ok] "1.prems" by simp
    then obtain st2 where rest: "fill_column fp cX cY pW pH W H N C x (y + 1) st1 =
           Some (st2, map (\<lambda>y'. ((x, y'), the (pixel_colour fp cX cY pW pH W H N C (x, y')))) [y + 1 .. H - 1])"
      by blast
    have "[y .. H - 1] = y # [y + 1 .. H - 1]"
      using True by (simp add: upto_rec1)
    then show ?thesis
      using True fp1 ok rest pc
      by (simp add: fill_column.simps [of fp cX cY pW pH W H N C x y])
  qed
qed


lemma stripe_split:
  assumes "1 \<le> (n::int)"
  shows "x \<le> x' \<and> (x' - x) mod n = 0 \<longleftrightarrow> x' = x \<or> (x + n \<le> x' \<and> (x' - (x + n)) mod n = 0)"
proof -
  have m: "(x' - (x + n)) mod n = (x' - x) mod n"
    by (metis diff_diff_eq mod_diff_right_eq mod_self diff_zero)
  have "x + n \<le> x'" if "x < x'" "(x' - x) mod n = 0"
  proof -
    from that(2) have "n dvd x' - x" by auto
    with that(1) have "n \<le> x' - x" by (intro zdvd_imp_le) auto
    then show ?thesis by simp
  qed
  with m assms show ?thesis by auto
qed

lemma fill_columns_spec:
  assumes "1 \<le> n" and "0 \<le> x" and "H \<le> INT_MAX" and "W + n \<le> INT_MAX + 1"
    and "\<forall>p. pixel_colour fp cX cY pW pH W H N C p \<noteq> None"
  shows "\<exists>ws. fill_columns fp cX cY pW pH W H N C n x st = Some ws
            \<and> distinct (map fst ws)
            \<and> fst ` set ws = {(x', y'). x \<le> x' \<and> x' < W \<and> (x' - x) mod n = 0 \<and> 0 \<le> y' \<and> y' < H}
            \<and> (\<forall>s \<in> set ws. pixel_colour fp cX cY pW pH W H N C (fst s) = Some (snd s))"
  using assms(2)
proof (induction "nat (W - x)" arbitrary: x st rule: less_induct)
  case less
  show ?case
  proof (cases "x < W")
    case False
    then show ?thesis
      by (subst fill_columns.simps) auto
  next
    case True
    define col where "col = map (\<lambda>y'. ((x, y'), the (pixel_colour fp cX cY pW pH W H N C (x, y')))) [0 .. H - 1]"
    obtain st1 where c: "fill_column fp cX cY pW pH W H N C x 0 st = Some (st1, col)"
      using fill_column_spec [of x H 0 fp cX cY pW pH W N C st] less.prems assms(3,5)
      unfolding col_def by blast
    have ov: "\<not> (INT_MAX < x + n \<or> x + n < INT_MIN)"
      using True assms(1,4) less.prems by (simp add: INT_MIN_def)
    have "nat (W - (x + n)) < nat (W - x)"
      using True assms(1) by simp
    from less.hyps [OF this, of st1] less.prems assms(1)
    obtain ws' where r: "fill_columns fp cX cY pW pH W H N C n (x + n) st1 = Some ws'"
      and d: "distinct (map fst ws')"
      and s: "fst ` set ws' = {(x', y'). x + n \<le> x' \<and> x' < W \<and> (x' - (x + n)) mod n = 0 \<and> 0 \<le> y' \<and> y' < H}"
      and v: "\<forall>s \<in> set ws'. pixel_colour fp cX cY pW pH W H N C (fst s) = Some (snd s)"
      by auto
    have res: "fill_columns fp cX cY pW pH W H N C n x st = Some (col @ ws')"
      using True c ov r by (subst fill_columns.simps) simp
    have fc: "map fst col = map (\<lambda>y'. (x, y')) [0 .. H - 1]"
      by (simp add: col_def comp_def)
    have dc: "distinct (map fst col)"
      unfolding fc by (simp add: distinct_map inj_on_def)
    have "fst ` set col = set (map fst col)"
      by simp
    also have "\<dots> = {(x', y'). x' = x \<and> 0 \<le> y' \<and> y' < H}"
      unfolding fc by auto
    finally have sc: "fst ` set col = {(x', y'). x' = x \<and> 0 \<le> y' \<and> y' < H}" .
    have disj: "fst ` set col \<inter> fst ` set ws' = {}"
      unfolding sc s using assms(1) by auto
    have "distinct (map fst (col @ ws'))"
      using dc d disj by simp
    moreover have "fst ` set (col @ ws') =
        {(x', y'). x \<le> x' \<and> x' < W \<and> (x' - x) mod n = 0 \<and> 0 \<le> y' \<and> y' < H}"
    proof -
      have "(x', y') \<in> fst ` set (col @ ws') \<longleftrightarrow>
            x \<le> x' \<and> x' < W \<and> (x' - x) mod n = 0 \<and> 0 \<le> y' \<and> y' < H" for x' y'
      proof -
        have "(x', y') \<in> fst ` set (col @ ws') \<longleftrightarrow>
              (x', y') \<in> fst ` set col \<or> (x', y') \<in> fst ` set ws'"
          by (simp add: image_Un)
        also have "\<dots> \<longleftrightarrow> (x' = x \<and> 0 \<le> y' \<and> y' < H) \<or>
              (x + n \<le> x' \<and> x' < W \<and> (x' - (x + n)) mod n = 0 \<and> 0 \<le> y' \<and> y' < H)"
          unfolding sc s by simp
        also have "\<dots> \<longleftrightarrow> (x' = x \<or> (x + n \<le> x' \<and> (x' - (x + n)) mod n = 0)) \<and>
              x' < W \<and> 0 \<le> y' \<and> y' < H"
          using True by blast
        also have "\<dots> \<longleftrightarrow> (x \<le> x' \<and> (x' - x) mod n = 0) \<and> x' < W \<and> 0 \<le> y' \<and> y' < H"
          unfolding stripe_split [OF assms(1), of x x'] ..
        also have "\<dots> \<longleftrightarrow> x \<le> x' \<and> x' < W \<and> (x' - x) mod n = 0 \<and> 0 \<le> y' \<and> y' < H"
          by blast
        finally show ?thesis .
      qed
      then show ?thesis
        by (intro set_eqI) (simp add: split_paired_all)
    qed
    moreover have "\<forall>s \<in> set (col @ ws'). pixel_colour fp cX cY pW pH W H N C (fst s) = Some (snd s)"
      using v assms(5) by (auto simp: col_def)
    ultimately show ?thesis
      using res by blast
  qed
qed


lemma worker_stripe:
  assumes "0 \<le> tid" and "tid < (n::int)"
  shows "tid \<le> x \<and> (x - tid) mod n = 0 \<longleftrightarrow> 0 \<le> x \<and> x mod n = tid"
proof
  assume h: "tid \<le> x \<and> (x - tid) mod n = 0"
  then have "x mod n = tid mod n"
    by (metis mod_eq_dvd_iff mod_0_imp_dvd)
  with assms h show "0 \<le> x \<and> x mod n = tid"
    by simp
next
  assume h: "0 \<le> x \<and> x mod n = tid"
  then have "(x - tid) mod n = 0"
    by (metis minus_mod_eq_mult_div mod_mult_self1_is_0)
  moreover have "x mod n \<le> x"
    using h assms by (intro zmod_le_nonneg_dividend) auto
  ultimately show "tid \<le> x \<and> (x - tid) mod n = 0"
    using h by simp
qed

lemma distinct_count_list:
  "distinct xs \<Longrightarrow> count_list xs v = (if v \<in> set xs then 1 else 0)"
  by (induction xs) auto

lemma fillJuliaSet_spec:
  assumes "1 \<le> n" and "0 \<le> tid" and "tid < n" and "H \<le> INT_MAX" and "W + n \<le> INT_MAX + 1"
    and "\<forall>p. pixel_colour fp cX cY pW pH W H N C p \<noteq> None"
  shows "\<exists>ws. fillJuliaSet fp cX cY pW pH W H N C n tid = Some ws
            \<and> (\<forall>x y. count_list (map fst ws) (x, y) =
                  (if 0 \<le> x \<and> x < W \<and> 0 \<le> y \<and> y < H \<and> x mod n = tid then 1 else 0))
            \<and> (\<forall>s \<in> set ws. pixel_colour fp cX cY pW pH W H N C (fst s) = Some (snd s))"
proof -
  from fill_columns_spec [OF assms(1,2,4,5,6), of "\<lparr> contents = - 1, stores = 0 \<rparr>"]
  obtain ws where r: "fillJuliaSet fp cX cY pW pH W H N C n tid = Some ws"
    and d: "distinct (map fst ws)"
    and s: "fst ` set ws = {(x', y'). tid \<le> x' \<and> x' < W \<and> (x' - tid) mod n = 0 \<and> 0 \<le> y' \<and> y' < H}"
    and v: "\<forall>s \<in> set ws. pixel_colour fp cX cY pW pH W H N C (fst s) = Some (snd s)"
    unfolding fillJuliaSet_def by blast
  have "count_list (map fst ws) (x, y) =
        (if 0 \<le> x \<and> x < W \<and> 0 \<le> y \<and> y < H \<and> x mod n = tid then 1 else 0)" for x y
  proof -
    have "(x, y) \<in> set (map fst ws) \<longleftrightarrow> tid \<le> x \<and> x < W \<and> (x - tid) mod n = 0 \<and> 0 \<le> y \<and> y < H"
      using s by auto
    also have "\<dots> \<longleftrightarrow> 0 \<le> x \<and> x < W \<and> 0 \<le> y \<and> y < H \<and> x mod n = tid"
      using worker_stripe [OF assms(2,3), of x] by auto
    finally show ?thesis
      using distinct_count_list [OF d, of "(x, y)"] by simp
  qed
  with r v show ?thesis
    by blast
qed

subsection \<open>Interleavings\<close>

lemma count_thread_step:
  "i < length ts \<Longrightarrow> ts ! i = e # rest \<Longrightarrow>
   sum_list (map (\<lambda>t. count_list (map h t) c) ts) =
   sum_list (map (\<lambda>t. count_list (map h t) c) (ts[i := rest])) + (if h e = c then 1 else 0)"
proof (induction ts arbitrary: i)
  case Nil
  then show ?case by simp
next
  case (Cons t ts)
  then show ?case
    by (cases i) auto
qed

lemma interleaving_count:
  "interleaving ts ws \<Longrightarrow>
   count_list (map h ws) c = sum_list (map (\<lambda>t. count_list (map h t) c) ts)"
proof (induction rule: interleaving.induct)
  case (finished ts)
  then have "map (\<lambda>t. count_list (map h t) c) ts = map (\<lambda>t. 0) ts"
    by (intro map_cong) auto
  then show ?case by simp
next
  case (step i ts e rest es)
  then show ?case
    using count_thread_step [of i ts e rest h c] by simp
qed

lemma interleaving_set:
  assumes "interleaving ts ws"
  shows "set ws = \<Union> (set ` set ts)"
proof -
  have "e \<in> set ws \<longleftrightarrow> e \<in> \<Union> (set ` set ts)" for e
  proof -
    have "e \<in> set ws \<longleftrightarrow> count_list (map id ws) e \<noteq> 0"
      by (simp add: count_list_0_iff)
    also have "\<dots> \<longleftrightarrow> sum_list (map (\<lambda>t. count_list (map id t) e) ts) \<noteq> 0"
      using interleaving_count [OF assms, of id e] by simp
    also have "\<dots> \<longleftrightarrow> (\<exists>t \<in> set ts. count_list t e \<noteq> 0)"
      by (auto simp: sum_list_eq_0_iff)
    also have "\<dots> \<longleftrightarrow> e \<in> \<Union> (set ` set ts)"
      by (auto simp: count_list_0_iff)
    finally show ?thesis .
  qed
  then show ?thesis by blast
qed

lemma interleaving_Nil_Cons:
  "interleaving ts ws \<Longrightarrow> interleaving ([] # ts) ws"
proof (induction rule: interleaving.induct)
  case (finished ts)
  have "\<forall>t \<in> set ([] # ts). t = []"
    using finished by auto
  then show ?case by (rule interleaving.finished)
next
  case (step i ts e rest es)
  have 1: "Suc i < length ([] # ts)"
    using step.hyps(1) by simp
  have 2: "([] # ts) ! Suc i = e # rest"
    using step.hyps(2) by simp
  have 3: "interleaving (([] # ts)[Suc i := rest]) es"
    using step.IH by simp
  show ?case
    by (rule interleaving.step [OF 1 2 3])
qed

lemma interleaving_Cons:
  "interleaving ts ws \<Longrightarrow> interleaving (t # ts) (t @ ws)"
proof (induction t)
  case Nil
  then show ?case by (simp add: interleaving_Nil_Cons)
next
  case (Cons e t)
  show ?case
    using interleaving.step [of 0 "(e # t) # ts" e t "t @ ws"] Cons by simp
qed

lemma interleaving_concat: "interleaving ts (concat ts)"
  by (induction ts) (auto intro: interleaving.finished interleaving_Cons)

lemma run_stores_functional:
  "\<forall>s \<in> set ws. F (fst s) = snd s \<Longrightarrow>
   run_stores ws cm = (\<lambda>p. if p \<in> fst ` set ws then F p else cm p)"
proof (induction ws arbitrary: cm)
  case Nil
  then show ?case by simp
next
  case (Cons s ws)
  obtain p v where s: "s = (p, v)" by (cases s)
  with Cons.prems have v: "F p = v" by simp
  have "run_stores (s # ws) cm = run_stores ws (cm(p := v))"
    by (simp add: s)
  also have "\<dots> = (\<lambda>q. if q \<in> fst ` set ws then F q else (cm(p := v)) q)"
    using Cons by simp
  also have "\<dots> = (\<lambda>q. if q \<in> fst ` set (s # ws) then F q else cm q)"
    using v by (auto simp: s fun_eq_iff)
  finally show ?case .
qed

subsection \<open>All threads\<close>

lemma nth_upto_int: "0 \<le> k \<Longrightarrow> k < n \<Longrightarrow> [0 .. n - 1] ! nat k = (k::int)"
  using nth_upto [of 0 "nat k" "n - 1"] by simp

lemma thread_stores_spec:
  assumes "1 \<le> n" and "W + n \<le> INT_MAX + 1" and "H \<le> INT_MAX"
    and "\<forall>s. 0 \<le> s \<and> s < N \<longrightarrow> colorOutOfSet fp s \<noteq> None"
  shows "\<exists>ts. thread_stores fp cX cY pW pH W H N C n = map Some ts
            \<and> length ts = nat n
            \<and> (\<forall>tid x y. 0 \<le> tid \<and> tid < n \<longrightarrow>
                  count_list (map fst (ts ! nat tid)) (x, y) =
                  (if 0 \<le> x \<and> x < W \<and> 0 \<le> y \<and> y < H \<and> x mod n = tid then 1 else 0))
            \<and> (\<forall>t \<in> set ts. \<forall>s \<in> set t. pixel_colour fp cX cY pW pH W H N C (fst s) = Some (snd s))"
proof -
  define run where "run tid = fillJuliaSet fp cX cY pW pH W H N C n tid" for tid
  define ts where "ts = map (\<lambda>tid. the (run tid)) [0 .. n - 1]"
  have def: "\<forall>p. pixel_colour fp cX cY pW pH W H N C p \<noteq> None"
    using pixel_colour_defined [OF assms(4)] by blast
  have one: "\<exists>ws. run tid = Some ws
            \<and> (\<forall>x y. count_list (map fst ws) (x, y) =
                  (if 0 \<le> x \<and> x < W \<and> 0 \<le> y \<and> y < H \<and> x mod n = tid then 1 else 0))
            \<and> (\<forall>s \<in> set ws. pixel_colour fp cX cY pW pH W H N C (fst s) = Some (snd s))"
    if "0 \<le> tid" "tid < n" for tid
    unfolding run_def using fillJuliaSet_spec [OF assms(1) that assms(3,2) def] .
  have "thread_stores fp cX cY pW pH W H N C n = map run [0 .. n - 1]"
    by (simp add: thread_stores_def run_def)
  also have "\<dots> = map (\<lambda>tid. Some (the (run tid))) [0 .. n - 1]"
  proof (rule map_cong [OF refl])
    fix tid assume "tid \<in> set [0 .. n - 1]"
    then have "0 \<le> tid" "tid < n" by auto
    from one [OF this] show "run tid = Some (the (run tid))" by auto
  qed
  also have "\<dots> = map Some ts"
    by (simp add: ts_def comp_def)
  finally have a: "thread_stores fp cX cY pW pH W H N C n = map Some ts" .
  have len: "length ts = nat n"
    using assms(1) by (simp add: ts_def)
  have nth: "ts ! nat tid = the (run tid)" if "0 \<le> tid" "tid < n" for tid
    using that nth_upto_int [OF that] by (simp add: ts_def)
  have b: "count_list (map fst (ts ! nat tid)) (x, y) =
           (if 0 \<le> x \<and> x < W \<and> 0 \<le> y \<and> y < H \<and> x mod n = tid then 1 else 0)"
    if "0 \<le> tid \<and> tid < n" for tid x y
  proof -
    from that have t: "0 \<le> tid" "tid < n" by auto
    from one [OF t] nth [OF t] show ?thesis by auto
  qed
  have c: "pixel_colour fp cX cY pW pH W H N C (fst s) = Some (snd s)"
    if "t \<in> set ts" "s \<in> set t" for t s
  proof -
    from that(1) obtain tid where t: "0 \<le> tid" "tid < n" and "t = the (run tid)"
      by (auto simp: ts_def)
    with one [OF t] that(2) show ?thesis by auto
  qed
  from a len b c show ?thesis by blast
qed

lemma sum_list_indicator:
  assumes "0 \<le> k" and "k < (n::int)"
  shows "sum_list (map (\<lambda>tid. if P \<and> k = tid then 1 else 0) [0 .. n - 1]) = (if P then 1 else (0::nat))"
proof -
  have "sum_list (map (\<lambda>tid. if P \<and> k = tid then 1 else 0) [0 .. n - 1]) =
        (\<Sum>tid \<in> set [0 .. n - 1]. if P \<and> k = tid then 1 else (0::nat))"
    by (rule sum_list_distinct_conv_sum_set) simp
  also have "\<dots> = (\<Sum>tid \<in> {0 .. n - 1}. if k = tid then (if P then 1 else 0) else 0)"
    by (intro sum.cong) auto
  also have "\<dots> = (if P then 1 else 0)"
    using assms by (simp add: sum.delta')
  finally show ?thesis .
qed

lemma interleaved_count:
  assumes "1 \<le> n" and "length ts = nat n"
    and "\<forall>tid x y. 0 \<le> tid \<and> tid < n \<longrightarrow>
           count_list (map fst (ts ! nat tid)) (x, y) =
           (if 0 \<le> x \<and> x < W \<and> 0 \<le> y \<and> y < H \<and> x mod n = tid then 1 else 0)"
    and "interleaving ts ws"
  shows "count_list (map fst ws) (x, y) = (if 0 \<le> x \<and> x < W \<and> 0 \<le> y \<and> y < (H::int) then 1 else 0)"
proof -
  have ts: "ts = map (\<lambda>tid. ts ! nat tid) [0 .. n - 1]"
  proof (rule nth_equalityI)
    show "length ts = length (map (\<lambda>tid. ts ! nat tid) [0 .. n - 1])"
      using assms(1,2) by simp
    fix i assume "i < length ts"
    then have "[0 .. n - 1] ! i = int i"
      using assms(2) nth_upto [of 0 i "n - 1"] by simp
    then show "ts ! i = map (\<lambda>tid. ts ! nat tid) [0 .. n - 1] ! i"
      using \<open>i < length ts\<close> assms(1,2) by simp
  qed
  have "count_list (map fst ws) (x, y) = sum_list (map (\<lambda>t. count_list (map fst t) (x, y)) ts)"
    by (rule interleaving_count [OF assms(4)])
  also have "\<dots> = sum_list (map (\<lambda>tid. count_list (map fst (ts ! nat tid)) (x, y)) [0 .. n - 1])"
    by (subst ts) (simp add: comp_def)
  also have "\<dots> = sum_list (map (\<lambda>tid. if (0 \<le> x \<and> x < W \<and> 0 \<le> y \<and> y < H) \<and> x mod n = tid then 1 else 0) [0 .. n - 1])"
  proof (rule arg_cong [where f = sum_list], rule map_cong [OF refl])
    fix tid assume "tid \<in> set [0 .. n - 1]"
    then have "0 \<le> tid \<and> tid < n" by auto
    with assms(3) show "count_list (map fst (ts ! nat tid)) (x, y) =
        (if (0 \<le> x \<and> x < W \<and> 0 \<le> y \<and> y < H) \<and> x mod n = tid then 1 else 0)"
      by simp
  qed
  also have "\<dots> = (if 0 \<le> x \<and> x < W \<and> 0 \<le> y \<and> y < H then 1 else 0)"
    using assms(1) by (intro sum_list_indicator) auto
  finally show ?thesis .
qed

lemma count_all_zero_Nil:
  assumes "\<forall>p. count_list (map h xs) p = 0"
  shows "xs = []"
proof (cases xs)
  case Nil
  then show ?thesis .
next
  case (Cons e es)
  from assms have "count_list (map h xs) (h e) = 0"
    by blast
  with Cons show ?thesis
    by simp
qed

lemma threads_fill_iff:
  assumes "1 \<le> n" and "W + n \<le> INT_MAX + 1" and "H \<le> INT_MAX"
    and "\<forall>s. 0 \<le> s \<and> s < N \<longrightarrow> colorOutOfSet fp s \<noteq> None"
  shows "threads_fill fp cX cY pW pH W H N C n cm m \<longleftrightarrow>
         m = (\<lambda>p. if 0 \<le> fst p \<and> fst p < W \<and> 0 \<le> snd p \<and> snd p < H
                   then the (pixel_colour fp cX cY pW pH W H N C p) else cm p)"
proof -
  define G where "G = (\<lambda>p. if 0 \<le> fst p \<and> fst p < W \<and> 0 \<le> snd p \<and> snd p < H
                   then the (pixel_colour fp cX cY pW pH W H N C p) else cm p)"
  from thread_stores_spec [OF assms, of cX cY pW pH C]
  obtain ts where a: "thread_stores fp cX cY pW pH W H N C n = map Some ts"
    and len: "length ts = nat n"
    and b: "\<forall>tid x y. 0 \<le> tid \<and> tid < n \<longrightarrow>
           count_list (map fst (ts ! nat tid)) (x, y) =
           (if 0 \<le> x \<and> x < W \<and> 0 \<le> y \<and> y < H \<and> x mod n = tid then 1 else 0)"
    and c: "\<forall>t \<in> set ts. \<forall>s \<in> set t. pixel_colour fp cX cY pW pH W H N C (fst s) = Some (snd s)"
    by blast
  have key: "run_stores ws cm = G" if il: "interleaving ts ws" for ws
  proof -
    have "\<forall>s \<in> set ws. the (pixel_colour fp cX cY pW pH W H N C (fst s)) = snd s"
      using c interleaving_set [OF il] by auto
    then have "run_stores ws cm =
        (\<lambda>p. if p \<in> fst ` set ws then the (pixel_colour fp cX cY pW pH W H N C p) else cm p)"
      by (rule run_stores_functional)
    moreover have "p \<in> fst ` set ws \<longleftrightarrow> 0 \<le> fst p \<and> fst p < W \<and> 0 \<le> snd p \<and> snd p < H" for p
    proof -
      have "p \<in> fst ` set ws \<longleftrightarrow> count_list (map fst ws) (fst p, snd p) \<noteq> 0"
        by (simp add: count_list_0_iff)
      also have "\<dots> \<longleftrightarrow> 0 \<le> fst p \<and> fst p < W \<and> 0 \<le> snd p \<and> snd p < H"
        unfolding interleaved_count [OF assms(1) len b il] by simp
      finally show ?thesis .
    qed
    ultimately show ?thesis
      by (simp add: G_def)
  qed
  have "threads_fill fp cX cY pW pH W H N C n cm m \<longleftrightarrow> m = G"
  proof
    assume "threads_fill fp cX cY pW pH W H N C n cm m"
    then obtain ts' ws where "map Some ts = map Some ts'" "interleaving ts' ws" "m = run_stores ws cm"
      unfolding threads_fill_def a by blast
    moreover from this(1) have "ts' = ts"
      by (simp add: inj_map_eq_map)
    ultimately show "m = G"
      using key by simp
  next
    assume "m = G"
    then have "m = run_stores (concat ts) cm"
      using key [OF interleaving_concat] by simp
    with a interleaving_concat [of ts] show "threads_fill fp cX cY pW pH W H N C n cm m"
      unfolding threads_fill_def by blast
  qed
  then show ?thesis
    by (simp add: G_def)
qed

subsection \<open>Overflow of the column counter\<close>

lemma fill_columns_overflow:
  assumes "1 \<le> n" and "x \<le> x0" and "(x0 - x) mod n = 0" and "x0 < W" and "INT_MAX < x0 + n"
  shows "fill_columns fp cX cY pW pH W H N C n x st = None"
  using assms(2,3)
proof (induction "nat (x0 - x)" arbitrary: x st rule: less_induct)
  case less
  have lt: "x < W"
    using less.prems(1) assms(4) by simp
  show ?case
  proof (cases "fill_column fp cX cY pW pH W H N C x 0 st")
    case None
    with lt show ?thesis
      by (subst fill_columns.simps) simp
  next
    case (Some res)
    obtain st1 ws where res: "res = (st1, ws)" by (cases res)
    show ?thesis
    proof (cases "INT_MAX < x + n \<or> x + n < INT_MIN")
      case True
      with lt Some res show ?thesis
        by (subst fill_columns.simps) simp
    next
      case False
      then have "x \<noteq> x0"
        using assms(5) by auto
      with stripe_split [OF assms(1), of x x0] less.prems
      have nxt: "x + n \<le> x0" "(x0 - (x + n)) mod n = 0"
        by auto
      have "nat (x0 - (x + n)) < nat (x0 - x)"
        using nxt(1) assms(1) by simp
      from less.hyps [OF this nxt]
      have "fill_columns fp cX cY pW pH W H N C n (x + n) st1 = None" .
      with lt Some res False show ?thesis
        by (subst fill_columns.simps) simp
    qed
  qed
qed

section \<open>Properties of the colours in exact arithmetic\<close>

lemma channel_value_exact:
  "channel_value exact base delta s = of_int base + of_rat delta * of_int s"
  by (simp add: channel_value_def exact_def)

lemma real_to_uint8_floor:
  "0 \<le> v \<Longrightarrow> v < 256 \<Longrightarrow> real_to_uint8 v = Some (word_of_int \<lfloor>v\<rfloor>)"
  by (simp add: real_to_uint8_def truncate_toward_zero_def)

lemma channel_values_exact:
  "channel_value exact RED_OUTOF_SET RED_DELTA s = 10 + 8 / 5 * real_of_int s"
  "channel_value exact GREEN_OUTOF_SET GREEN_DELTA s = 10 + 4 / 5 * real_of_int s"
  "channel_value exact BLUE_OUTOF_SET BLUE_DELTA s = 30 + 7 / 5 * real_of_int s"
  by (simp_all add: channel_value_exact RED_OUTOF_SET_def RED_DELTA_def GREEN_OUTOF_SET_def
        GREEN_DELTA_def BLUE_OUTOF_SET_def BLUE_DELTA_def of_rat_divide)

lemma colorOutOfSet_exact:
  assumes "0 \<le> s" and "s \<le> 153"
  shows "colorOutOfSet exact s =
         Some \<lparr> r = word_of_int \<lfloor>10 + 8 / 5 * real_of_int s\<rfloor>,
                g = word_of_int \<lfloor>10 + 4 / 5 * real_of_int s\<rfloor>,
                b = word_of_int \<lfloor>30 + 7 / 5 * real_of_int s\<rfloor>,
                a = 255 \<rparr>"
proof -
  have s: "0 \<le> real_of_int s" "real_of_int s \<le> 153"
    using assms by simp_all
  have red: "f_to_uint8 exact (channel_value exact RED_OUTOF_SET RED_DELTA s) =
             Some (word_of_int \<lfloor>10 + 8 / 5 * real_of_int s\<rfloor>)"
    unfolding channel_values_exact using s by (simp add: exact_def real_to_uint8_floor)
  have green: "f_to_uint8 exact (channel_value exact GREEN_OUTOF_SET GREEN_DELTA s) =
             Some (word_of_int \<lfloor>10 + 4 / 5 * real_of_int s\<rfloor>)"
    unfolding channel_values_exact using s by (simp add: exact_def real_to_uint8_floor)
  have blue: "f_to_uint8 exact (channel_value exact BLUE_OUTOF_SET BLUE_DELTA s) =
             Some (word_of_int \<lfloor>30 + 7 / 5 * real_of_int s\<rfloor>)"
    unfolding channel_values_exact using s by (simp add: exact_def real_to_uint8_floor)
  show ?thesis
    unfolding colorOutOfSet_def red green blue
    by (simp add: OPACITY_OUTOF_SET_def OPACITY_DELTA_def)
qed

lemma colorOutOfSet_exact_defined:
  "\<forall>s. 0 \<le> s \<and> s < NUM_ITERATIONS \<longrightarrow> colorOutOfSet exact s \<noteq> None"
  by (simp add: NUM_ITERATIONS_def colorOutOfSet_exact)

section \<open>The partition of the colour map among the threads\<close>

text \<open>
  While the column counter stays within \<open>int\<close>
  (\<open>windowWidth + numberOfThreads \<le> INT_MAX + 1\<close>, \<open>windowHeight \<le> INT_MAX\<close>) and every
  out-of-set colour of a stage below \<open>numIterations\<close> is defined, the threads partition the
  grid: every thread returns; thread \<open>tid\<close> stores exactly once to each pixel \<open>(x, y)\<close> of
  the grid with \<open>x mod numberOfThreads = tid\<close> and to no other pixel; a thread without such
  a column stores nothing; and in every interleaving of the threads each pixel of the grid
  is stored to exactly once and no pixel outside it is stored to.
\<close>

lemma fill_partition:
  assumes "1 \<le> n" and "W + n \<le> INT_MAX + 1" and "H \<le> INT_MAX"
    and "\<forall>s. 0 \<le> s \<and> s < N \<longrightarrow> colorOutOfSet fp s \<noteq> None"
  shows "\<exists>ts. thread_stores fp cX cY pW pH W H N C n = map Some ts
     \<and> (\<forall>tid x y. 0 \<le> tid \<and> tid < n \<longrightarrow>
           count_list (map fst (ts ! nat tid)) (x, y) =
           (if 0 \<le> x \<and> x < W \<and> 0 \<le> y \<and> y < H \<and> x mod n = tid then 1 else 0))
     \<and> (\<forall>tid. 0 \<le> tid \<and> tid < n \<and> \<not> (\<exists>x. 0 \<le> x \<and> x < W \<and> x mod n = tid) \<longrightarrow> ts ! nat tid = [])
     \<and> (\<forall>ws x y. interleaving ts ws \<longrightarrow>
           count_list (map fst ws) (x, y) = (if 0 \<le> x \<and> x < W \<and> 0 \<le> y \<and> y < H then 1 else 0))"
proof -
  from thread_stores_spec [OF assms, of cX cY pW pH C]
  obtain ts where a: "thread_stores fp cX cY pW pH W H N C n = map Some ts"
    and len: "length ts = nat n"
    and b: "\<forall>tid x y. 0 \<le> tid \<and> tid < n \<longrightarrow>
           count_list (map fst (ts ! nat tid)) (x, y) =
           (if 0 \<le> x \<and> x < W \<and> 0 \<le> y \<and> y < H \<and> x mod n = tid then 1 else 0)"
    by blast
  have c: "ts ! nat tid = []"
    if "0 \<le> tid \<and> tid < n \<and> \<not> (\<exists>x. 0 \<le> x \<and> x < W \<and> x mod n = tid)" for tid
  proof (rule count_all_zero_Nil [where h = fst], rule allI)
    fix p :: "int \<times> int"
    obtain x y where p: "p = (x, y)" by (cases p)
    from that b have "count_list (map fst (ts ! nat tid)) (x, y) =
           (if 0 \<le> x \<and> x < W \<and> 0 \<le> y \<and> y < H \<and> x mod n = tid then 1 else 0)"
      by blast
    also have "\<dots> = 0"
      using that by auto
    finally show "count_list (map fst (ts ! nat tid)) p = 0"
      by (simp add: p)
  qed
  have d: "count_list (map fst ws) (x, y) = (if 0 \<le> x \<and> x < W \<and> 0 \<le> y \<and> y < H then 1 else 0)"
    if "interleaving ts ws" for ws x y
    by (rule interleaved_count [OF assms(1) len b that])
  from a b c d show ?thesis by blast
qed

text \<open>The example of the specification (800 by 600 pixels, 100 iterations), with four threads.\<close>

lemma fill_partition_example:
  "\<exists>ts. thread_stores exact 0 0 4 3 800 600 NUM_ITERATIONS (Complex (285 / 1000) (1 / 100)) 4 = map Some ts
     \<and> (\<forall>tid x y. 0 \<le> tid \<and> tid < 4 \<longrightarrow>
           count_list (map fst (ts ! nat tid)) (x, y) =
           (if 0 \<le> x \<and> x < 800 \<and> 0 \<le> y \<and> y < 600 \<and> x mod 4 = tid then 1 else 0))
     \<and> (\<forall>tid. 0 \<le> tid \<and> tid < 4 \<and> \<not> (\<exists>x. 0 \<le> x \<and> x < 800 \<and> x mod 4 = tid) \<longrightarrow> ts ! nat tid = [])
     \<and> (\<forall>ws x y. interleaving ts ws \<longrightarrow>
           count_list (map fst ws) (x, y) = (if 0 \<le> x \<and> x < 800 \<and> 0 \<le> y \<and> y < 600 then 1 else 0))"
proof -
  have h: "(1::int) \<le> 4" "(800::int) + 4 \<le> INT_MAX + 1" "(600::int) \<le> INT_MAX"
    by (simp_all add: INT_MAX_def)
  show ?thesis
    by (rule fill_partition [OF h colorOutOfSet_exact_defined])
qed

text \<open>
  Claim C3 fails on the code. The counter \<open>x\<close> of the outer loop is an \<open>int\<close>, the width it
  is compared with a \<open>long\<close>. With \<open>windowWidth = 2147483647\<close>, \<open>windowHeight = 1\<close> and two
  threads, thread 0 fills column \<open>2147483646\<close>, and \<open>x += 2\<close> then overflows the counter: the
  thread has no defined result (compiled to wrap around, the counter is negative and the
  next store is out of bounds), so the threads do not store to every pixel exactly once.
\<close>

theorem fill_partition_counterexample:
  "fillJuliaSet exact 0 0 4 3 2147483647 1 NUM_ITERATIONS 0 2 0 = None
   \<and> \<not> (\<exists>ts. thread_stores exact 0 0 4 3 2147483647 1 NUM_ITERATIONS 0 2 = map Some ts)"
proof -
  have none: "fillJuliaSet exact 0 0 4 3 2147483647 1 NUM_ITERATIONS 0 2 0 = None"
    unfolding fillJuliaSet_def
    by (rule fill_columns_overflow [where ?x0.0 = 2147483646]) (simp_all add: INT_MAX_def)
  have "[0 .. 2 - 1] = [0, 1::int]"
    by (simp add: upto.simps)
  then have "thread_stores exact 0 0 4 3 2147483647 1 NUM_ITERATIONS 0 2 =
        [None, fillJuliaSet exact 0 0 4 3 2147483647 1 NUM_ITERATIONS 0 2 1]"
    by (simp add: thread_stores_def none)
  then have "\<not> (\<exists>ts. thread_stores exact 0 0 4 3 2147483647 1 NUM_ITERATIONS 0 2 = map Some ts)"
    by (auto simp: Cons_eq_map_conv)
  with none show ?thesis by simp
qed

section \<open>One thread and many threads\<close>

text \<open>
  Under the same bounds, the colour map left by one thread and the colour map left by
  \<open>numberOfThreads\<close> threads, in any interleaving of their stores, exist and are the same
  map.
\<close>

lemma worker_count_determinism:
  assumes "1 \<le> n" and "W + n \<le> INT_MAX + 1" and "H \<le> INT_MAX"
    and "\<forall>s. 0 \<le> s \<and> s < N \<longrightarrow> colorOutOfSet fp s \<noteq> None"
  shows "\<exists>m. threads_fill fp cX cY pW pH W H N C 1 cm m
           \<and> threads_fill fp cX cY pW pH W H N C n cm m
           \<and> (\<forall>m'. threads_fill fp cX cY pW pH W H N C 1 cm m'
                    \<or> threads_fill fp cX cY pW pH W H N C n cm m' \<longrightarrow> m' = m)"
proof -
  have one: "(1::int) \<le> 1" "W + 1 \<le> INT_MAX + 1"
    using assms(1,2) by auto
  show ?thesis
    unfolding threads_fill_iff [OF assms] threads_fill_iff [OF one assms(3,4)]
    by blast
qed

lemma worker_count_determinism_example:
  "\<exists>m. threads_fill exact 0 0 4 3 800 600 NUM_ITERATIONS (Complex (285 / 1000) (1 / 100)) 1 (\<lambda>p. colorInSet) m
      \<and> threads_fill exact 0 0 4 3 800 600 NUM_ITERATIONS (Complex (285 / 1000) (1 / 100)) 4 (\<lambda>p. colorInSet) m
      \<and> (\<forall>m'. threads_fill exact 0 0 4 3 800 600 NUM_ITERATIONS (Complex (285 / 1000) (1 / 100)) 1 (\<lambda>p. colorInSet) m'
             \<or> threads_fill exact 0 0 4 3 800 600 NUM_ITERATIONS (Complex (285 / 1000) (1 / 100)) 4 (\<lambda>p. colorInSet) m'
             \<longrightarrow> m' = m)"
proof -
  have h: "(1::int) \<le> 4" "(800::int) + 4 \<le> INT_MAX + 1" "(600::int) \<le> INT_MAX"
    by (simp_all add: INT_MAX_def)
  show ?thesis
    by (rule worker_count_determinism [OF h colorOutOfSet_exact_defined])
qed

text \<open>
  Claim C2 fails on the code, by the same overflow. With \<open>windowWidth = 2147483647\<close> and
  \<open>windowHeight = 1\<close> one thread fills the map (its counter stops at \<open>INT_MAX\<close>); with two
  threads the counter of thread 0 overflows and there is no colour map to compare.
\<close>

theorem worker_count_determinism_counterexample:
  "(\<exists>m. threads_fill exact 0 0 4 3 2147483647 1 NUM_ITERATIONS 0 1 (\<lambda>p. colorInSet) m)
   \<and> \<not> (\<exists>m. threads_fill exact 0 0 4 3 2147483647 1 NUM_ITERATIONS 0 2 (\<lambda>p. colorInSet) m)"
proof
  have h: "(1::int) \<le> 1" "(2147483647::int) + 1 \<le> INT_MAX + 1" "(1::int) \<le> INT_MAX"
    by (simp_all add: INT_MAX_def)
  show "\<exists>m. threads_fill exact 0 0 4 3 2147483647 1 NUM_ITERATIONS 0 1 (\<lambda>p. colorInSet) m"
    unfolding threads_fill_iff [OF h colorOutOfSet_exact_defined] by blast
next
  have none: "fillJuliaSet exact 0 0 4 3 2147483647 1 NUM_ITERATIONS 0 2 0 = None"
    unfolding fillJuliaSet_def
    by (rule fill_columns_overflow [where ?x0.0 = 2147483646]) (simp_all add: INT_MAX_def)
  have "[0 .. 2 - 1] = [0, 1::int]"
    by (simp add: upto.simps)
  then have "thread_stores exact 0 0 4 3 2147483647 1 NUM_ITERATIONS 0 2 =
        [None, fillJuliaSet exact 0 0 4 3 2147483647 1 NUM_ITERATIONS 0 2 1]"
    by (simp add: thread_stores_def none)
  then show "\<not> (\<exists>m. threads_fill exact 0 0 4 3 2147483647 1 NUM_ITERATIONS 0 2 (\<lambda>p. colorInSet) m)"
    by (auto simp: threads_fill_def Cons_eq_map_conv)
qed

section \<open>The fixed-point exit\<close>

declare escape_time_loop.simps [simp del]
declare loop_without_test.simps [simp del]

text \<open>In exact arithmetic the loop without the test is the loop of the complex numbers.\<close>

lemma loop_without_test_exact: "loop_without_test exact C N i z = escape_time_loop C N i z"
proof (induction "nat (N - i)" arbitrary: i z)
  case 0
  then show ?case
    by (subst escape_time_loop.simps, subst loop_without_test.simps) simp
next
  case (Suc k)
  have "k = nat (N - (i + 1))"
    using Suc.hyps(2) by simp
  from Suc.hyps(1) [OF this, of "z * z + C"] show ?case
    by (subst escape_time_loop.simps, subst loop_without_test.simps)
      (simp add: f_exact escaped_exact [unfolded escaped_def] Let_def)
qed

text \<open>Once \<open>current\<close> is a fixed point within the radius, the loop without the test stays there.\<close>

lemma fixed_point_never_escapes:
  assumes "z * z + C = z" and "cmod z \<le> 2"
  shows "escape_time_loop C N i z"
proof (induction "nat (N - i)" arbitrary: i)
  case 0
  then show ?case
    by (subst escape_time_loop.simps) simp
next
  case (Suc k)
  have "k = nat (N - (i + 1))"
    using Suc.hyps(2) by simp
  from Suc.hyps(1) [OF this] have "escape_time_loop C N (i + 1) z" .
  then show ?case
    using assms by (subst escape_time_loop.simps) simp
qed

lemma loop_classification:
  "fst (isInJuliaSet_loop exact C N i z z st) = escape_time_loop C N i z"
proof (induction "nat (N - i)" arbitrary: i z)
  case 0
  then have "\<not> i < N" by simp
  then show ?case
    by (subst escape_time_loop.simps) (simp add: loop_finished)
next
  case (Suc k)
  then have lt: "i < N" by simp
  show ?case
  proof (cases "2 < cmod (z * z + C)")
    case True
    with lt show ?thesis
      by (subst escape_time_loop.simps) (simp add: loop_escape escaped_exact f_exact)
  next
    case ne: False
    show ?thesis
    proof (cases "z * z + C = z")
      case True
      have "escape_time_loop C N (i + 1) z"
        using ne True by (intro fixed_point_never_escapes) simp_all
      with lt ne True show ?thesis
        by (subst escape_time_loop.simps) (simp add: loop_repeat escaped_exact f_exact ceq_exact)
    next
      case False
      have "k = nat (N - (i + 1))"
        using Suc.hyps(2) by simp
      from Suc.hyps(1) [OF this, of "z * z + C"] lt ne False show ?thesis
        by (subst escape_time_loop.simps) (simp add: loop_continue escaped_exact f_exact ceq_exact)
    qed
  qed
qed

subsection \<open>Rounding depends on the number only\<close>

lemma round_shift_1: "round_to_double s (2 * m) (e - 1) = round_to_double s m e"
proof (cases "m = 0")
  case True
  then show ?thesis by (simp add: round_to_double_def)
next
  case False
  then have bl: "bitlength (2 * m) = Suc (bitlength m)"
    by (subst bitlength.simps) simp
  have E: "result_exponent (2 * m) (e - 1) = result_exponent m e"
    by (simp add: result_exponent_def bl)
  have "scale_significand (2 * m) (e - 1) (result_exponent m e)
        = scale_significand m e (result_exponent m e)"
  proof -
    define E where "E = result_exponent m e"
    consider "E \<le> e - 1" | "E = e" | "e < E" by linarith
    then have "scale_significand (2 * m) (e - 1) E = scale_significand m e E"
    proof cases
      case 1
      then have "nat (e - E) = Suc (nat (e - 1 - E))" by simp
      with 1 show ?thesis
        by (simp add: scale_significand_def)
    next
      case 2
      then show ?thesis
        by (simp add: scale_significand_def round_half_even_def)
    next
      case 3
      define d where "d = nat (E - e) - 1"
      have d: "nat (E - e) = Suc d" "nat (E - (e - 1)) = Suc (Suc d)"
        using 3 by (simp_all add: d_def)
      have dv: "(2 * m) div (2 * (2 * 2 ^ d)) = m div (2 * 2 ^ d)"
        by simp
      have md: "(2 * m) mod (2 * (2 * 2 ^ d)) = 2 * (m mod (2 * 2 ^ d))"
        by (simp add: mult_mod_right)
      have "round_half_even (2 * m) (Suc (Suc d)) = round_half_even m (Suc d)"
        unfolding round_half_even_def power_Suc diff_Suc_1 dv md by simp
      with 3 d show ?thesis
        by (simp add: scale_significand_def)
    qed
    then show ?thesis by (simp add: E_def)
  qed
  with E False show ?thesis
    by (simp add: round_to_double_def)
qed

lemma round_shift: "round_to_double s (m * 2 ^ k) (e - int k) = round_to_double s m e"
proof (induction k arbitrary: m e)
  case 0
  then show ?case by simp
next
  case (Suc k)
  have "round_to_double s (m * 2 ^ Suc k) (e - int (Suc k))
        = round_to_double s ((2 * m) * 2 ^ k) ((e - 1) - int k)"
    by (simp add: algebra_simps)
  also have "\<dots> = round_to_double s (2 * m) (e - 1)"
    by (rule Suc.IH)
  also have "\<dots> = round_to_double s m e"
    by (rule round_shift_1)
  finally show ?case .
qed

lemma round_invariant_le:
  assumes "real m * 2 powr (real_of_int e) = real m' * 2 powr (real_of_int e')" and "e \<le> e'"
  shows "round_to_double s m e = round_to_double s m' e'"
proof -
  define k where "k = nat (e' - e)"
  have e: "e = e' - int k"
    using assms(2) by (simp add: k_def)
  have "real m' * 2 powr (real_of_int e') = real m' * 2 powr (real k) * 2 powr (real_of_int e)"
    using assms(2) by (simp add: k_def powr_add [symmetric])
  with assms(1) have "real m = real m' * 2 powr (real k)"
    by simp
  also have "\<dots> = real (m' * 2 ^ k)"
    by (simp add: powr_realpow)
  finally have "m = m' * 2 ^ k"
    by (simp only: of_nat_eq_iff)
  then show ?thesis
    unfolding e by (simp add: round_shift)
qed

lemma round_invariant:
  assumes "real m * 2 powr (real_of_int e) = real m' * 2 powr (real_of_int e')"
  shows "round_to_double s m e = round_to_double s m' e'"
proof (cases "e \<le> e'")
  case True
  with assms show ?thesis by (rule round_invariant_le)
next
  case False
  then have "e' \<le> e" by simp
  with assms [symmetric] have "round_to_double s m' e' = round_to_double s m e"
    by (rule round_invariant_le)
  then show ?thesis by simp
qed

subsection \<open>Doubles that compare equal\<close>

lemma valof_powr:
  "valof (Finite s m e) = (if s then - 1 else 1) * real m * 2 powr (real_of_int e)"
proof (cases "0 \<le> e")
  case True
  then have "2 powr (real_of_int e) = (2::real) ^ nat e"
    using powr_realpow [of "2::real" "nat e"] by simp
  with True show ?thesis by simp
next
  case False
  then have "2 powr (real_of_int e) = inverse ((2::real) ^ nat (- e))"
    using powr_realpow [of "2::real" "nat (- e)"] powr_minus [of "2::real" "real_of_int (- e)"]
    by simp
  with False show ?thesis by (simp add: field_simps)
qed

lemma aligned_value:
  assumes "e0 \<le> e"
  shows "real_of_int (aligned s m e e0) * 2 powr (real_of_int e0) = valof (Finite s m e)"
proof -
  have "(2::real) ^ nat (e - e0) = 2 powr (real_of_int (e - e0))"
    using assms powr_realpow [of "2::real" "nat (e - e0)"] by simp
  then have "(2::real) ^ nat (e - e0) * 2 powr (real_of_int e0) = 2 powr (real_of_int e)"
    by (simp add: powr_add [symmetric])
  then show ?thesis
    unfolding valof_powr aligned_def by (simp add: mult.assoc del: valof.simps)
qed

lemma deq_iff_valof:
  "deq (Finite s1 m1 e1) (Finite s2 m2 e2)
   \<longleftrightarrow> valof (Finite s1 m1 e1) = valof (Finite s2 m2 e2)"
proof -
  have a1: "real_of_int (aligned s1 m1 e1 (min e1 e2)) * 2 powr (real_of_int (min e1 e2))
            = valof (Finite s1 m1 e1)"
    by (rule aligned_value) simp
  have a2: "real_of_int (aligned s2 m2 e2 (min e1 e2)) * 2 powr (real_of_int (min e1 e2))
            = valof (Finite s2 m2 e2)"
    by (rule aligned_value) simp
  have "aligned s1 m1 e1 (min e1 e2) = aligned s2 m2 e2 (min e1 e2)
        \<longleftrightarrow> real_of_int (aligned s1 m1 e1 (min e1 e2)) * 2 powr (real_of_int (min e1 e2))
            = real_of_int (aligned s2 m2 e2 (min e1 e2)) * 2 powr (real_of_int (min e1 e2))"
    by simp
  then show ?thesis
    unfolding a1 a2 by simp
qed

lemma valof_zero_iff: "valof (Finite s m e) = 0 \<longleftrightarrow> m = 0"
  by (simp add: valof_powr del: valof.simps)

lemma valof_pos_iff: "0 < valof (Finite s m e) \<longleftrightarrow> m \<noteq> 0 \<and> \<not> s"
  by (simp add: valof_powr zero_less_mult_iff del: valof.simps)

lemma abs_valof: "\<bar>valof (Finite s m e)\<bar> = real m * 2 powr (real_of_int e)"
  by (simp add: valof_powr abs_mult del: valof.simps)

lemma valof_sign:
  assumes "valof (Finite s m e) = valof (Finite t n d)" and "m \<noteq> 0"
  shows "s = t" and "n \<noteq> 0"
proof -
  show n: "n \<noteq> 0"
    using assms valof_zero_iff [of s m e] valof_zero_iff [of t n d] by auto
  show "s = t"
    using assms n valof_pos_iff [of s m e] valof_pos_iff [of t n d] by auto
qed

lemma round_to_double_0: "round_to_double s 0 e = Finite s 0 0"
  by (simp add: round_to_double_def)

lemma dmul_cong:
  assumes x: "deq (Finite s1 m1 e1) (Finite t1 n1 d1)"
    and y: "deq (Finite s2 m2 e2) (Finite t2 n2 d2)"
  shows "alike (dmul (Finite s1 m1 e1) (Finite s2 m2 e2)) (dmul (Finite t1 n1 d1) (Finite t2 n2 d2))"
proof -
  have vx: "valof (Finite s1 m1 e1) = valof (Finite t1 n1 d1)"
    using x by (simp only: deq_iff_valof)
  have vy: "valof (Finite s2 m2 e2) = valof (Finite t2 n2 d2)"
    using y by (simp only: deq_iff_valof)
  show ?thesis
  proof (cases "m1 = 0 \<or> m2 = 0")
    case True
    then have "n1 = 0 \<or> n2 = 0"
      using vx vy valof_zero_iff [of s1 m1 e1] valof_zero_iff [of t1 n1 d1]
        valof_zero_iff [of s2 m2 e2] valof_zero_iff [of t2 n2 d2] by auto
    with True have z: "m1 * m2 = 0" "n1 * n2 = 0"
      by auto
    have "dmul (Finite s1 m1 e1) (Finite s2 m2 e2) = Finite (s1 \<noteq> s2) 0 0"
      "dmul (Finite t1 n1 d1) (Finite t2 n2 d2) = Finite (t1 \<noteq> t2) 0 0"
      unfolding dmul.simps z by (rule round_to_double_0)+
    then show ?thesis
      by (cases "s1 = s2"; cases "t1 = t2"; simp add: alike_def)
  next
    case False
    then have m: "m1 \<noteq> 0" "m2 \<noteq> 0"
      by auto
    have s: "s1 = t1" "s2 = t2"
      using valof_sign(1) [OF vx m(1)] valof_sign(1) [OF vy m(2)] by auto
    have "real (m1 * m2) * 2 powr (real_of_int (e1 + e2))
          = \<bar>valof (Finite s1 m1 e1)\<bar> * \<bar>valof (Finite s2 m2 e2)\<bar>"
      unfolding abs_valof by (simp add: powr_add)
    also have "\<dots> = \<bar>valof (Finite t1 n1 d1)\<bar> * \<bar>valof (Finite t2 n2 d2)\<bar>"
      by (simp only: vx vy)
    also have "\<dots> = real (n1 * n2) * 2 powr (real_of_int (d1 + d2))"
      unfolding abs_valof by (simp add: powr_add)
    finally have "round_to_double (s1 \<noteq> s2) (m1 * m2) (e1 + e2)
                  = round_to_double (s1 \<noteq> s2) (n1 * n2) (d1 + d2)"
      by (rule round_invariant)
    then show ?thesis
      by (simp add: s alike_def)
  qed
qed

lemma alike_refl: "alike x x"
  by (simp add: alike_def)

lemma alike_sym: "alike x y \<Longrightarrow> alike y x"
  by (auto simp: alike_def)

lemma alike_trans: "alike x y \<Longrightarrow> alike y z \<Longrightarrow> alike x z"
  by (auto simp: alike_def)

lemma alike_finite: "alike x y \<Longrightarrow> is_finite x = is_finite y"
  by (auto simp: alike_def)

lemma deq_refl: "is_finite x \<Longrightarrow> deq x x"
  by (cases x) simp_all

lemma alike_deq: "alike x y \<Longrightarrow> is_finite x \<Longrightarrow> deq x y"
  by (auto simp: alike_def deq_refl aligned_def)

lemma dneg_alike: "alike x y \<Longrightarrow> alike (dneg x) (dneg y)"
  by (auto simp: alike_def)

lemma dadd_zero_left: "alike (dadd (Finite s 0 0) y) (dadd (Finite t 0 0) y)"
  by (cases y) (simp_all add: sum_to_double_def aligned_def alike_def)

lemma dadd_zero_right: "alike (dadd x (Finite s 0 0)) (dadd x (Finite t 0 0))"
  by (cases x) (simp_all add: sum_to_double_def aligned_def alike_def)

lemma dadd_alike_left: "alike x x' \<Longrightarrow> alike (dadd x y) (dadd x' y)"
  using dadd_zero_left [of _ y] by (auto simp: alike_def [of x x'] alike_refl)

lemma dadd_alike_right: "alike y y' \<Longrightarrow> alike (dadd x y) (dadd x y')"
  using dadd_zero_right [of x] by (auto simp: alike_def [of y y'] alike_refl)

lemma dadd_alike: "alike x x' \<Longrightarrow> alike y y' \<Longrightarrow> alike (dadd x y) (dadd x' y')"
  by (rule alike_trans [OF dadd_alike_left dadd_alike_right])

lemma dsub_alike: "alike x x' \<Longrightarrow> alike y y' \<Longrightarrow> alike (dsub x y) (dsub x' y')"
  unfolding dsub_def by (intro dadd_alike dneg_alike)

lemma square_alike: "alike x y \<Longrightarrow> dmul x x = dmul y y"
  by (auto simp: alike_def round_to_double_0)

lemma round_cases:
  "(\<exists>q e'. round_to_double s m e = Finite s q e') \<or> round_to_double s m e = Infinity s"
  by (simp add: round_to_double_def finite_or_infinity_def)

lemma round_not_NaN: "round_to_double s m e \<noteq> NaN"
  using round_cases [of s m e] by auto

lemma dmul_commute: "dmul x y = dmul y x"
proof (cases x; cases y)
  fix s1 m1 e1 s2 m2 e2
  assume x: "x = Finite s1 m1 e1" and y: "y = Finite s2 m2 e2"
  have "(s1 \<noteq> s2) = (s2 \<noteq> s1)"
    by auto
  then show ?thesis
    unfolding x y dmul.simps by (simp only: mult.commute [of m1 m2] add.commute [of e1 e2])
qed auto

lemma dadd_self_not_NaN: "x \<noteq> NaN \<Longrightarrow> dadd x x \<noteq> NaN"
  by (cases x) (simp_all add: sum_to_double_def round_not_NaN)

lemma dmul_finite_not_NaN: "is_finite x \<Longrightarrow> is_finite y \<Longrightarrow> dmul x y \<noteq> NaN"
  by (cases x; cases y) (simp_all add: round_not_NaN)

lemma f_finite:
  assumes "is_finite (fst u)" and "is_finite (snd u)"
  shows "f (binary64 rc) u C
         = (dadd (dsub (dmul (fst u) (fst u)) (dmul (snd u) (snd u))) (fst C),
            dadd (dadd (dmul (fst u) (snd u)) (dmul (snd u) (fst u))) (snd C))"
proof -
  have "dmul (fst u) (snd u) \<noteq> NaN"
    using assms by (rule dmul_finite_not_NaN)
  then have "product_im u u \<noteq> NaN"
    unfolding product_im_def dmul_commute [of "snd u" "fst u"] by (rule dadd_self_not_NaN)
  then show ?thesis
    by (simp add: f_def binary64_def dc_mul_def product_re_def product_im_def)
qed

lemma finite_cases: "is_finite x \<Longrightarrow> \<exists>s m e. x = Finite s m e"
  by (cases x) simp_all

lemma dmul_cong_finite:
  assumes "is_finite x" "is_finite x'" "is_finite y" "is_finite y'" "deq x x'" "deq y y'"
  shows "alike (dmul x y) (dmul x' y')"
proof -
  obtain s1 m1 e1 where x: "x = Finite s1 m1 e1" using assms(1) finite_cases by blast
  obtain t1 n1 d1 where x': "x' = Finite t1 n1 d1" using assms(2) finite_cases by blast
  obtain s2 m2 e2 where y: "y = Finite s2 m2 e2" using assms(3) finite_cases by blast
  obtain t2 n2 d2 where y': "y' = Finite t2 n2 d2" using assms(4) finite_cases by blast
  show ?thesis
    using assms(5,6) unfolding x x' y y' by (rule dmul_cong)
qed

lemma f_cong:
  assumes u: "is_finite (fst u)" "is_finite (snd u)"
    and v: "is_finite (fst v)" "is_finite (snd v)"
    and e: "deq (fst u) (fst v)" "deq (snd u) (snd v)"
  shows "alike (fst (f (binary64 rc) u C)) (fst (f (binary64 rc) v C))"
    and "alike (snd (f (binary64 rc) u C)) (snd (f (binary64 rc) v C))"
proof -
  have aa: "alike (dmul (fst u) (fst u)) (dmul (fst v) (fst v))"
    using u(1) v(1) u(1) v(1) e(1) e(1) by (rule dmul_cong_finite)
  have bb: "alike (dmul (snd u) (snd u)) (dmul (snd v) (snd v))"
    using u(2) v(2) u(2) v(2) e(2) e(2) by (rule dmul_cong_finite)
  have ab: "alike (dmul (fst u) (snd u)) (dmul (fst v) (snd v))"
    using u(1) v(1) u(2) v(2) e(1) e(2) by (rule dmul_cong_finite)
  have ba: "alike (dmul (snd u) (fst u)) (dmul (snd v) (fst v))"
    using u(2) v(2) u(1) v(1) e(2) e(1) by (rule dmul_cong_finite)
  show "alike (fst (f (binary64 rc) u C)) (fst (f (binary64 rc) v C))"
    unfolding f_finite [OF u] f_finite [OF v] fst_conv
    by (intro dadd_alike dsub_alike aa bb alike_refl)
  show "alike (snd (f (binary64 rc) u C)) (snd (f (binary64 rc) v C))"
    unfolding f_finite [OF u] f_finite [OF v] snd_conv
    by (intro dadd_alike ab ba alike_refl)
qed

lemma distance_alike:
  assumes "alike (fst u) (fst v)" and "alike (snd u) (snd v)"
  shows "distanceFromOrigin (binary64 rc) u = distanceFromOrigin (binary64 rc) v"
  using square_alike [OF assms(1)] square_alike [OF assms(2)]
  by (simp add: distanceFromOrigin_def binary64_def)

lemma escaped_alike:
  assumes "alike (fst u) (fst v)" and "alike (snd u) (snd v)"
  shows "escaped (binary64 rc) u = escaped (binary64 rc) v"
  unfolding escaped_def distance_alike [OF assms] ..

subsection \<open>The loop without the test in binary64 arithmetic\<close>

lemma without_test_finished: "\<not> i < N \<Longrightarrow> loop_without_test fp C N i z"
  by (simp add: loop_without_test.simps)

lemma without_test_escape:
  "i < N \<Longrightarrow> escaped fp (f fp z C) \<Longrightarrow> \<not> loop_without_test fp C N i z"
  by (simp add: loop_without_test.simps [of fp C N i] escaped_def Let_def)

lemma without_test_continue:
  "i < N \<Longrightarrow> \<not> escaped fp (f fp z C) \<Longrightarrow>
   loop_without_test fp C N i z = loop_without_test fp C N (i + 1) (f fp z C)"
  by (simp add: loop_without_test.simps [of fp C N i] escaped_def Let_def)

lemma square_cases:
  "x \<noteq> NaN \<Longrightarrow> (\<exists>q e. dmul x x = Finite False q e) \<or> dmul x x = Infinity False"
  using round_cases [of False] by (cases x) simp_all

lemma distance_infinite_re:
  assumes "y \<noteq> NaN"
  shows "distanceFromOrigin (binary64 rc) (Infinity s, y) = Infinity False"
  using square_cases [OF assms] by (auto simp: distanceFromOrigin_def binary64_def)

lemma distance_infinite_im:
  assumes "x \<noteq> NaN"
  shows "distanceFromOrigin (binary64 rc) (x, Infinity s) = Infinity False"
  using square_cases [OF assms] by (auto simp: distanceFromOrigin_def binary64_def)

lemma deq_cases:
  "deq x y \<Longrightarrow> (is_finite x \<and> is_finite y) \<or> (\<exists>s. x = Infinity s \<and> y = Infinity s)"
  by (cases x; cases y) simp_all

lemma quiet_finite:
  assumes c: "ceq (binary64 rc) w z" and q: "\<not> escaped (binary64 rc) w"
  shows "is_finite (fst w) \<and> is_finite (snd w) \<and> is_finite (fst z) \<and> is_finite (snd z)"
proof -
  have e: "deq (fst w) (fst z)" "deq (snd w) (snd z)"
    using c by (simp_all add: binary64_def)
  have n: "fst w \<noteq> NaN" "snd w \<noteq> NaN"
    using e by auto
  have far: "escaped (binary64 rc) (x, y)" if "distanceFromOrigin (binary64 rc) (x, y) = Infinity False"
    for x y
    unfolding escaped_def that by (simp add: binary64_def d_lit_2)
  have "\<not> (\<exists>s. fst w = Infinity s)"
  proof
    assume "\<exists>s. fst w = Infinity s"
    then obtain s where "w = (Infinity s, snd w)"
      by (cases w) auto
    then have "escaped (binary64 rc) w"
      using far [OF distance_infinite_re [OF n(2), of rc s]] by simp
    with q show False ..
  qed
  moreover have "\<not> (\<exists>s. snd w = Infinity s)"
  proof
    assume "\<exists>s. snd w = Infinity s"
    then obtain s where "w = (fst w, Infinity s)"
      by (cases w) auto
    then have "escaped (binary64 rc) w"
      using far [OF distance_infinite_im [OF n(1), of rc s]] by simp
    with q show False ..
  qed
  ultimately show ?thesis
    using deq_cases [OF e(1)] deq_cases [OF e(2)] by auto
qed

text \<open>
  After an iteration that left \<open>current\<close> equal to its previous value without escaping, the
  loop without the test never escapes: every later value compares equal to that one.
\<close>

lemma fixed_point_stays:
  assumes c: "ceq (binary64 rc) (f (binary64 rc) z C) z"
    and q: "\<not> escaped (binary64 rc) (f (binary64 rc) z C)"
    and a: "alike (fst u) (fst (f (binary64 rc) z C))" "alike (snd u) (snd (f (binary64 rc) z C))"
  shows "loop_without_test (binary64 rc) C N i u"
  using a
proof (induction "nat (N - i)" arbitrary: i u)
  case 0
  then show ?case
    by (simp add: without_test_finished)
next
  case (Suc k)
  define w where "w = f (binary64 rc) z C"
  have fin: "is_finite (fst w)" "is_finite (snd w)" "is_finite (fst z)" "is_finite (snd z)"
    using quiet_finite [OF c q] by (simp_all add: w_def)
  have wz: "deq (fst w) (fst z)" "deq (snd w) (snd z)"
    using c by (simp_all add: binary64_def w_def)
  have au: "alike (fst u) (fst w)" "alike (snd u) (snd w)"
    using Suc.prems by (simp_all add: w_def)
  have fu: "is_finite (fst u)" "is_finite (snd u)"
    using alike_finite [OF au(1)] alike_finite [OF au(2)] fin by simp_all
  have uw: "deq (fst u) (fst w)" "deq (snd u) (snd w)"
    using alike_deq [OF au(1) fu(1)] alike_deq [OF au(2) fu(2)] .
  have n1: "alike (fst (f (binary64 rc) u C)) (fst (f (binary64 rc) w C))"
    "alike (snd (f (binary64 rc) u C)) (snd (f (binary64 rc) w C))"
    using f_cong [OF fu fin(1,2) uw] .
  have n2: "alike (fst (f (binary64 rc) w C)) (fst w)" "alike (snd (f (binary64 rc) w C)) (snd w)"
    using f_cong [OF fin(1,2) fin(3,4) wz, of rc C] by (simp_all add: w_def)
  have next_alike: "alike (fst (f (binary64 rc) u C)) (fst w)" "alike (snd (f (binary64 rc) u C)) (snd w)"
    using alike_trans [OF n1(1) n2(1)] alike_trans [OF n1(2) n2(2)] .
  have quiet: "\<not> escaped (binary64 rc) (f (binary64 rc) u C)"
    using escaped_alike [OF next_alike, of rc] q by (simp add: w_def)
  have lt: "i < N"
    using Suc.hyps(2) by simp
  have "k = nat (N - (i + 1))"
    using Suc.hyps(2) by simp
  from Suc.hyps(1) [OF this, of "f (binary64 rc) u C"] next_alike
  have "loop_without_test (binary64 rc) C N (i + 1) (f (binary64 rc) u C)"
    by (simp add: w_def)
  then show ?case
    using without_test_continue [OF lt quiet] by simp
qed

lemma loop_classification_binary64:
  "fst (isInJuliaSet_loop (binary64 rc) C N i z z st) = loop_without_test (binary64 rc) C N i z"
proof (induction "nat (N - i)" arbitrary: i z)
  case 0
  then have "\<not> i < N" by simp
  then show ?case
    by (simp add: loop_finished without_test_finished)
next
  case (Suc k)
  then have lt: "i < N" by simp
  show ?case
  proof (cases "escaped (binary64 rc) (f (binary64 rc) z C)")
    case True
    with lt show ?thesis
      by (simp add: loop_escape without_test_escape)
  next
    case ne: False
    show ?thesis
    proof (cases "ceq (binary64 rc) (f (binary64 rc) z C) z")
      case True
      have "loop_without_test (binary64 rc) C N (i + 1) (f (binary64 rc) z C)"
        using True ne by (rule fixed_point_stays) (rule alike_refl)+
      with lt ne True show ?thesis
        by (simp add: loop_repeat without_test_continue)
    next
      case False
      have "k = nat (N - (i + 1))"
        using Suc.hyps(2) by simp
      from Suc.hyps(1) [OF this, of "f (binary64 rc) z C"] lt ne False show ?thesis
        by (simp add: loop_continue without_test_continue)
    qed
  qed
qed

lemma signed_zero_step:
  "f (binary64 rc) (Finite True 0 0, Finite False 0 0) (Finite False 0 0, Finite False 0 0)
   = (Finite False 0 0, Finite False 0 0)"
  by (simp add: binary64_operations binary64_rounding)

lemma signed_zero_not_escaped: "\<not> escaped (binary64 rc) (Finite False 0 0, Finite False 0 0)"
  by (simp add: escaped_def binary64_operations binary64_rounding d_lit_2)

lemma signed_zero_run:
  "isInJuliaSet (binary64 rc) (Finite True 0 0, Finite False 0 0)
     (Finite False 0 0, Finite False 0 0) 5 st = (True, st)"
  unfolding isInJuliaSet_def
  by (rule loop_repeat)
    (simp_all add: signed_zero_step signed_zero_not_escaped, simp add: binary64_def aligned_def)

text \<open>
  Claim C4. For every \<open>Z\<close>, \<open>C\<close> and \<open>numIterations\<close>, \<open>isInJuliaSet\<close> gives the
  classification of the same loop without the fixed-point test: in binary64 arithmetic,
  where \<open>==\<close> also holds between \<open>+0\<close> and \<open>-0\<close>, whatever the recovery of infinities in the
  complex product; and in exact arithmetic, where the loop without the test is the
  escape-time loop of the complex numbers.
\<close>

theorem fixed_point_exit_keeps_classification:
  "fst (isInJuliaSet (binary64 rc) Zd Cd N st) = isInJuliaSet_without_test (binary64 rc) Zd Cd N
   \<and> fst (isInJuliaSet exact Z C N st) = isInJuliaSet_without_test exact Z C N
   \<and> fst (isInJuliaSet exact Z C N st) = escape_time Z C N"
  unfolding isInJuliaSet_def isInJuliaSet_without_test_def escape_time_def
  by (simp add: loop_classification_binary64 loop_classification loop_without_test_exact)

text \<open>
  In binary64 arithmetic: \<open>Z = -0 + 0 i\<close> with \<open>C = 0\<close>, where the first iteration gives
  \<open>+0 + 0 i\<close>, which compares equal to \<open>Z\<close> without being the same double, and the early exit
  is taken; and \<open>Z = 0\<close> with \<open>C = 2 + 2\<^sup>-\<^sup>3\<^sup>0 i\<close>, which escapes. In exact arithmetic: the
  fixed point \<open>Z = 0\<close> of \<open>C = 0\<close>, and \<open>Z = 3\<close>, which escapes.
\<close>

theorem fixed_point_exit_keeps_classification_witness:
  "isInJuliaSet_without_test (binary64 (\<lambda>u v. (NaN, NaN))) (Finite True 0 0, Finite False 0 0)
     (Finite False 0 0, Finite False 0 0) 5 = True
   \<and> isInJuliaSet_without_test (binary64 (\<lambda>u v. (NaN, NaN))) (Finite False 0 0, Finite False 0 0)
       (Finite False 4503599627370496 (- 51), Finite False 4503599627370496 (- 82)) 5 = False
   \<and> isInJuliaSet_without_test exact 0 0 5 = True
   \<and> escape_time 0 0 5 = True
   \<and> isInJuliaSet_without_test exact 3 0 5 = False
   \<and> escape_time 3 0 5 = False"
  using
    fixed_point_exit_keeps_classification [of "\<lambda>u v. (NaN, NaN)"
      "(Finite True 0 0, Finite False 0 0)" "(Finite False 0 0, Finite False 0 0)" 5
      "\<lparr>contents = - 1, stores = 0\<rparr>" 0 0]
    fixed_point_exit_keeps_classification [of "\<lambda>u v. (NaN, NaN)"
      "(Finite False 0 0, Finite False 0 0)"
      "(Finite False 4503599627370496 (- 51), Finite False 4503599627370496 (- 82))" 5
      "\<lparr>contents = - 1, stores = 0\<rparr>" 3 0]
  by (simp add: isInJuliaSet_exact_0 isInJuliaSet_exact_3 signed_zero_run boundary_run)

section \<open>The coordinate transforms in exact arithmetic\<close>

lemma XTransform_exact:
  "XTransform exact x cx pw W = pw * (real_of_int x / real_of_int W - 1 / 2) + cx"
  by (simp add: XTransform_def exact_def of_rat_divide)

lemma YTransform_exact:
  "YTransform exact y cy ph H = ph * (1 / 2 - real_of_int y / real_of_int H) + cy"
  by (simp add: YTransform_def exact_def of_rat_divide)

lemma half_pixel:
  assumes "0 < W"
  shows "real_of_int (W div 2) / real_of_int W - 1 / 2 = - real_of_int (W mod 2) / (2 * real_of_int W)"
proof -
  define w d m where "w = real_of_int W" and "d = real_of_int (W div 2)" and "m = real_of_int (W mod 2)"
  have pos: "0 < w"
    using assms by (simp add: w_def)
  have "W = 2 * (W div 2) + W mod 2"
    by simp
  then have "real_of_int W = 2 * real_of_int (W div 2) + real_of_int (W mod 2)"
    by (metis of_int_add of_int_mult of_int_numeral)
  then have d: "d = (w - m) / 2"
    by (simp add: w_def d_def m_def)
  have "d / w = (w - m) / (2 * w)"
    unfolding d by simp
  also have "\<dots> = w / (2 * w) - m / (2 * w)"
    by (rule diff_divide_distrib)
  also have "w / (2 * w) = 1 / 2"
    using pos by simp
  finally have "d / w - 1 / 2 = - m / (2 * w)"
    by simp
  then show ?thesis
    by (simp add: w_def d_def m_def)
qed

text \<open>
  Claim C5, as the code has it, in exact arithmetic. For a window of positive dimensions,
  \<open>XTransform\<close> returns \<open>planeWidth * (x / windowWidth - 0.5) + centerX\<close> and \<open>YTransform\<close>
  returns \<open>planeHeight * (0.5 - y / windowHeight) + centerY\<close>; pixel \<open>(0, 0)\<close> maps to
  \<open>(centerX - planeWidth / 2, centerY + planeHeight / 2)\<close>; the pixel
  \<open>(windowWidth / 2, windowHeight / 2)\<close>, with C's integer division, maps to
  \<open>(centerX, centerY)\<close> when both dimensions are even, and in general half a pixel step to
  the left of and above it for each odd dimension.
\<close>

theorem transforms_exact:
  assumes "0 < W" and "0 < H"
  shows "XTransform exact x cx pw W = pw * (real_of_int x / real_of_int W - 1 / 2) + cx
       \<and> YTransform exact y cy ph H = ph * (1 / 2 - real_of_int y / real_of_int H) + cy
       \<and> XTransform exact 0 cx pw W = cx - pw / 2
       \<and> YTransform exact 0 cy ph H = cy + ph / 2
       \<and> XTransform exact (W div 2) cx pw W = cx - pw * real_of_int (W mod 2) / (2 * real_of_int W)
       \<and> YTransform exact (H div 2) cy ph H = cy + ph * real_of_int (H mod 2) / (2 * real_of_int H)
       \<and> (even W \<longrightarrow> XTransform exact (W div 2) cx pw W = cx)
       \<and> (even H \<longrightarrow> YTransform exact (H div 2) cy ph H = cy)"
proof -
  have x0: "XTransform exact 0 cx pw W = cx - pw / 2"
    by (simp add: XTransform_exact)
  have y0: "YTransform exact 0 cy ph H = cy + ph / 2"
    by (simp add: YTransform_exact)
  have xc: "XTransform exact (W div 2) cx pw W = cx - pw * real_of_int (W mod 2) / (2 * real_of_int W)"
    unfolding XTransform_exact half_pixel [OF assms(1)] by simp
  have "1 / 2 - real_of_int (H div 2) / real_of_int H = real_of_int (H mod 2) / (2 * real_of_int H)"
    using half_pixel [OF assms(2)] by simp
  then have yc: "YTransform exact (H div 2) cy ph H = cy + ph * real_of_int (H mod 2) / (2 * real_of_int H)"
    unfolding YTransform_exact by simp
  have xe: "XTransform exact (W div 2) cx pw W = cx" if "even W"
    using that xc by (simp add: even_iff_mod_2_eq_zero)
  have ye: "YTransform exact (H div 2) cy ph H = cy" if "even H"
    using that yc by (simp add: even_iff_mod_2_eq_zero)
  show ?thesis
    using x0 y0 xc yc xe ye by (simp add: XTransform_exact YTransform_exact)
qed

text \<open>The 800 by 600 window of the specification, centred at the origin.\<close>

theorem transforms_exact_witness:
  "XTransform exact 0 0 4 800 = - 2 \<and> YTransform exact 0 0 3 600 = 3 / 2
   \<and> XTransform exact (800 div 2) 0 4 800 = 0 \<and> YTransform exact (600 div 2) 0 3 600 = 0
   \<and> XTransform exact 200 0 4 800 = - 1"
proof -
  have h: "(0::int) < 800" "(0::int) < 600"
    by simp_all
  show ?thesis
    using transforms_exact [OF h, of 200 0 4 0 0 3] by simp
qed

text \<open>
  A window three pixels wide and high over a plane of width and height 6 centred at the
  origin: the centre pixel \<open>(1, 1)\<close> maps to \<open>(-1, 1)\<close>, a sixth of the plane away from the
  centre \<open>(0, 0)\<close>.
\<close>

theorem transforms_exact_counterexample:
  "XTransform exact (3 div 2) 0 6 3 = - 1 \<and> YTransform exact (3 div 2) 0 6 3 = 1
   \<and> XTransform exact (3 div 2) 0 6 3 \<noteq> 0 \<and> YTransform exact (3 div 2) 0 6 3 \<noteq> 0"
  by (simp add: XTransform_exact YTransform_exact)

section \<open>The out-of-set colours in exact arithmetic\<close>

lemma uint_byte: "0 \<le> k \<Longrightarrow> k < 256 \<Longrightarrow> uint (word_of_int k :: 8 word) = k"
  by (simp add: uint_word_of_int_eq take_bit_int_eq_self)

lemma uint_floor_byte:
  assumes "0 \<le> v" and "v < 256"
  shows "uint (word_of_int \<lfloor>v::real\<rfloor> :: 8 word) = \<lfloor>v\<rfloor>"
proof (rule uint_byte)
  show "0 \<le> \<lfloor>v\<rfloor>"
    using assms(1) by simp
  show "\<lfloor>v\<rfloor> < 256"
    using assms(2) by (simp add: floor_less_iff)
qed

text \<open>
  Claim C6, as the code has it, in exact arithmetic. For stages \<open>0 \<le> s1 \<le> s2 \<le> 153\<close>
  \<open>colorOutOfSet\<close> returns a colour for both; the red, green and blue channels are the
  values \<open>10 + 1.6 s\<close>, \<open>10 + 0.8 s\<close> and \<open>30 + 1.4 s\<close> with the fractional part discarded, the
  opacity is \<open>255 + 0 s\<close>; and no channel decreases from \<open>s1\<close> to \<open>s2\<close>, the opacity staying
  the same.
\<close>

theorem colorOutOfSet_channels:
  assumes "0 \<le> s1" and "s1 \<le> s2" and "s2 \<le> 153"
  shows "\<exists>c1 c2. colorOutOfSet exact s1 = Some c1 \<and> colorOutOfSet exact s2 = Some c2
     \<and> uint (r c1) = \<lfloor>channel_value exact RED_OUTOF_SET RED_DELTA s1\<rfloor>
     \<and> uint (g c1) = \<lfloor>channel_value exact GREEN_OUTOF_SET GREEN_DELTA s1\<rfloor>
     \<and> uint (b c1) = \<lfloor>channel_value exact BLUE_OUTOF_SET BLUE_DELTA s1\<rfloor>
     \<and> uint (a c1) = OPACITY_OUTOF_SET + OPACITY_DELTA * s1
     \<and> channel_value exact RED_OUTOF_SET RED_DELTA s1 = 10 + 8 / 5 * real_of_int s1
     \<and> channel_value exact GREEN_OUTOF_SET GREEN_DELTA s1 = 10 + 4 / 5 * real_of_int s1
     \<and> channel_value exact BLUE_OUTOF_SET BLUE_DELTA s1 = 30 + 7 / 5 * real_of_int s1
     \<and> r c1 \<le> r c2 \<and> g c1 \<le> g c2 \<and> b c1 \<le> b c2 \<and> a c1 = a c2"
proof -
  define c where "c s = \<lparr> r = word_of_int \<lfloor>10 + 8 / 5 * real_of_int s\<rfloor>,
                g = word_of_int \<lfloor>10 + 4 / 5 * real_of_int s\<rfloor>,
                b = word_of_int \<lfloor>30 + 7 / 5 * real_of_int s\<rfloor>,
                a = (255 :: 8 word) \<rparr>" for s :: int
  have col: "colorOutOfSet exact s = Some (c s)" if "0 \<le> s" "s \<le> 153" for s
    unfolding c_def using that by (rule colorOutOfSet_exact)
  have ur: "uint (r (c s)) = \<lfloor>10 + 8 / 5 * real_of_int s\<rfloor>" if "0 \<le> s" "s \<le> 153" for s
  proof -
    have sel: "r (c s) = word_of_int \<lfloor>10 + 8 / 5 * real_of_int s\<rfloor>"
      by (simp only: c_def SDL_Color.select_convs)
    have "0 \<le> 10 + 8 / 5 * real_of_int s" "10 + 8 / 5 * real_of_int s < 256"
      using that by simp_all
    then show ?thesis
      unfolding sel by (rule uint_floor_byte)
  qed
  have ug: "uint (g (c s)) = \<lfloor>10 + 4 / 5 * real_of_int s\<rfloor>" if "0 \<le> s" "s \<le> 153" for s
  proof -
    have sel: "g (c s) = word_of_int \<lfloor>10 + 4 / 5 * real_of_int s\<rfloor>"
      by (simp only: c_def SDL_Color.select_convs)
    have "0 \<le> 10 + 4 / 5 * real_of_int s" "10 + 4 / 5 * real_of_int s < 256"
      using that by simp_all
    then show ?thesis
      unfolding sel by (rule uint_floor_byte)
  qed
  have ub: "uint (b (c s)) = \<lfloor>30 + 7 / 5 * real_of_int s\<rfloor>" if "0 \<le> s" "s \<le> 153" for s
  proof -
    have sel: "b (c s) = word_of_int \<lfloor>30 + 7 / 5 * real_of_int s\<rfloor>"
      by (simp only: c_def SDL_Color.select_convs)
    have "0 \<le> 30 + 7 / 5 * real_of_int s" "30 + 7 / 5 * real_of_int s < 256"
      using that by simp_all
    then show ?thesis
      unfolding sel by (rule uint_floor_byte)
  qed
  have s1: "0 \<le> s1" "s1 \<le> 153" and s2: "0 \<le> s2" "s2 \<le> 153"
    using assms by simp_all
  have le: "real_of_int s1 \<le> real_of_int s2"
    using assms(2) by simp
  have mr: "r (c s1) \<le> r (c s2)"
    unfolding word_le_def ur [OF s1] ur [OF s2] using le by (intro floor_mono) simp
  have mg: "g (c s1) \<le> g (c s2)"
    unfolding word_le_def ug [OF s1] ug [OF s2] using le by (intro floor_mono) simp
  have mb: "b (c s1) \<le> b (c s2)"
    unfolding word_le_def ub [OF s1] ub [OF s2] using le by (intro floor_mono) simp
  have ua: "uint (a (c s1)) = OPACITY_OUTOF_SET + OPACITY_DELTA * s1" "a (c s1) = a (c s2)"
    by (simp_all add: c_def OPACITY_OUTOF_SET_def OPACITY_DELTA_def)
  show ?thesis
    using col [OF s1] col [OF s2] ur [OF s1] ug [OF s1] ub [OF s1] ua mr mg mb
    by (simp add: channel_values_exact)
qed

theorem colorOutOfSet_channels_witness:
  "\<exists>c1 c2. colorOutOfSet exact 5 = Some c1 \<and> colorOutOfSet exact 99 = Some c2
     \<and> uint (r c1) = 18 \<and> uint (g c1) = 14 \<and> uint (b c1) = 37 \<and> uint (a c1) = 255
     \<and> r c1 \<le> r c2 \<and> g c1 \<le> g c2 \<and> b c1 \<le> b c2 \<and> a c1 = a c2"
proof -
  have h: "(0::int) \<le> 5" "(5::int) \<le> 99" "(99::int) \<le> 153"
    by simp_all
  from colorOutOfSet_channels [OF h] show ?thesis
    by (auto simp: OPACITY_OUTOF_SET_def OPACITY_DELTA_def)
qed

text \<open>
  At stage 154 the red value is \<open>256.4\<close>, which no \<open>Uint8\<close> holds: the conversion is
  undefined and there is no colour. At stage 1 the red value is \<open>11.6\<close> and the channel is 11.
\<close>

theorem colorOutOfSet_channels_counterexample:
  "colorOutOfSet exact 154 = None
   \<and> channel_value exact RED_OUTOF_SET RED_DELTA 154 = 1282 / 5
   \<and> channel_value exact RED_OUTOF_SET RED_DELTA 1 = 58 / 5
   \<and> map_option (\<lambda>c. uint (r c)) (colorOutOfSet exact 1) = Some 11"
proof -
  have cv: "channel_value exact RED_OUTOF_SET RED_DELTA 154 = 1282 / 5"
    by (simp add: channel_values_exact)
  have conv: "f_to_uint8 exact = real_to_uint8"
    by (simp add: exact_def)
  have "f_to_uint8 exact (channel_value exact RED_OUTOF_SET RED_DELTA 154) = None"
    unfolding cv conv by (simp add: real_to_uint8_def)
  then have "colorOutOfSet exact 154 = None"
    by (simp add: colorOutOfSet_def)
  moreover have "map_option (\<lambda>c. uint (r c)) (colorOutOfSet exact 1) = Some 11"
    by (simp add: colorOutOfSet_exact uint_byte)
  ultimately show ?thesis
    by (simp add: channel_values_exact)
qed

section \<open>The channels with the shipped iteration bound\<close>

text \<open>
  Claim C10. With \<open>NUM_ITERATIONS = 100\<close>, a stage that \<open>isInJuliaSet\<close> stores (in any
  arithmetic) lies between 0 and 99, and for such a stage every channel value, computed
  exactly, lies between 0 and 255 before it is stored into a \<open>Uint8\<close>, so that
  \<open>colorOutOfSet\<close> is defined.
\<close>

theorem shipped_channels_fit_byte:
  assumes "isInJuliaSet fp Z C NUM_ITERATIONS st = (False, st')"
  shows "0 \<le> contents st' \<and> contents st' \<le> 99
     \<and> 0 \<le> channel_value exact RED_OUTOF_SET RED_DELTA (contents st')
     \<and> channel_value exact RED_OUTOF_SET RED_DELTA (contents st') \<le> 255
     \<and> 0 \<le> channel_value exact GREEN_OUTOF_SET GREEN_DELTA (contents st')
     \<and> channel_value exact GREEN_OUTOF_SET GREEN_DELTA (contents st') \<le> 255
     \<and> 0 \<le> channel_value exact BLUE_OUTOF_SET BLUE_DELTA (contents st')
     \<and> channel_value exact BLUE_OUTOF_SET BLUE_DELTA (contents st') \<le> 255
     \<and> 0 \<le> OPACITY_OUTOF_SET + OPACITY_DELTA * contents st'
     \<and> OPACITY_OUTOF_SET + OPACITY_DELTA * contents st' \<le> 255
     \<and> colorOutOfSet exact (contents st') \<noteq> None"
proof -
  from isInJuliaSet_frame [OF assms] obtain j where "0 \<le> j" "j < NUM_ITERATIONS" "st' = write_buffer j st"
    by auto
  then have s: "0 \<le> contents st'" "contents st' \<le> 99"
    by (simp_all add: write_buffer_def NUM_ITERATIONS_def)
  then have rs: "0 \<le> real_of_int (contents st')" "real_of_int (contents st') \<le> 99"
    by simp_all
  have "colorOutOfSet exact (contents st') \<noteq> None"
    using s by (simp add: colorOutOfSet_exact)
  with s rs show ?thesis
    by (simp add: channel_values_exact OPACITY_OUTOF_SET_def OPACITY_DELTA_def)
qed

theorem shipped_channels_fit_byte_witness:
  "isInJuliaSet exact 3 0 NUM_ITERATIONS \<lparr>contents = - 1, stores = 0\<rparr> = (False, \<lparr>contents = 0, stores = 1\<rparr>)
   \<and> channel_value exact RED_OUTOF_SET RED_DELTA 0 = 10
   \<and> colorOutOfSet exact 0 \<noteq> None"
proof -
  have e: "isInJuliaSet exact 3 0 NUM_ITERATIONS \<lparr>contents = - 1, stores = 0\<rparr> = (False, \<lparr>contents = 0, stores = 1\<rparr>)"
    by (simp add: known_escape_exact NUM_ITERATIONS_def write_buffer_def)
  from shipped_channels_fit_byte [OF e] e show ?thesis
    by (simp add: channel_values_exact)
qed

end
